theory Spec2Isabelle
  imports Complex_Main
begin

section \<open>Data model of the usage aggregator (users.js)\<close>

text \<open>
  An entry of usage-store.json, keyed by the user's uuid. Byte counts are JavaScript
  numbers holding integers; they are modelled as unbounded integers (exact below 2^53).
\<close>

record entry =
  accumBytes :: int
  lastRawBytes :: int

type_synonym usage_store = "string \<Rightarrow> entry option"

text \<open>
  The value of the field \<open>enabled\<close> of a stored record, as far as the code tells values
  apart: a boolean, a value that is no boolean and falsy (the field is absent, or holds
  \<open>null\<close>, 0 or the empty string), or a value that is no boolean and truthy (any other
  number, string or object).
\<close>

datatype flag = Flag bool | FalsyValue | TruthyValue

text \<open>
  A record of users.json. A field that JavaScript may find missing is an option
  (\<open>None\<close>: absent or of the wrong type) or, for strings, the empty string, which is
  falsy like \<open>undefined\<close>. \<open>user_id\<close> is the field \<open>id\<close> (\<open>None\<close>: not a finite
  number); \<open>userLastRawBytes\<close> is the field \<open>lastRawBytes\<close> of the user record.
\<close>

record user =
  user_id :: "int option"
  username :: string
  uuid :: string
  displayName :: string
  statKey :: string
  quota :: "rat option"
  expiry :: string
  enabled :: flag
  usageAccumBytes :: "int option"
  userLastRawBytes :: "int option"

text \<open>
  A snapshot element: the user record spread into a new object together with the derived
  fields. The connection URL (a string built from uuid, host and label) is left out, and
  with it the error that \<open>encodeURIComponent\<close> raises on a name that is not well-formed
  UTF-16, which a \<open>string\<close> of bytes cannot hold.
\<close>

record enriched = user +
  bandwidthUsage :: rat
  bandwidthUsageRaw :: rat
  remainingBandwidth :: rat
  remainingBandwidthRaw :: rat
  daysLeft :: "int option"

text \<open>One element of the \<open>stat\<close> array printed by the stats query.\<close>

record stat =
  stat_name :: string
  stat_value :: "int option"

text \<open>
  The outcome of one stats query: \<open>QueryFailed\<close> stands for every path that leaves
  \<open>rawBytes\<close> at 0 (the command fails or times out, its output has no \<open>stat\<close>, or the
  output does not parse); \<open>QueryOk\<close> carries the parsed \<open>stat\<close> array.
\<close>

datatype query_result = QueryFailed | QueryOk "stat list"

datatype file_name = USERS_FILE | USAGE_FILE

datatype error = ReadError | WriteError

datatype response = Ok200 | NotFound404 | Error500

text \<open>
  The state the aggregator works on: the two JSON files (\<open>None\<close>: \<open>readJson\<close> throws,
  because the file is missing, cannot be read or does not parse), whether \<open>writeJson\<close> on
  each file succeeds or throws, a log of the files written (newest first), and the three
  module variables \<open>_cachedEnriched\<close>, \<open>_cacheStamp\<close> and \<open>_isAggregating\<close>.
\<close>

record world =
  usersFile :: "user list option"
  usageFile :: "usage_store option"
  usersWritable :: bool
  usageWritable :: bool
  writeLog :: "file_name list"
  cachedEnriched :: "enriched list"
  cacheStamp :: int
  isAggregating :: bool

text \<open>State of one run of \<open>accumulateUsageAsync\<close>: its local \<open>store\<close>, the user array
  it mutates and the flag \<open>storeChanged\<close>.\<close>

record acc_state =
  store :: usage_store
  users :: "user list"
  storeChanged :: bool

section \<open>File access\<close>

definition readUsers :: "world \<Rightarrow> error + user list" where
  "readUsers w = (case usersFile w of None \<Rightarrow> Inl ReadError | Some us \<Rightarrow> Inr us)"

definition writeUsers :: "user list \<Rightarrow> world \<Rightarrow> error + world" where
  "writeUsers us w =
     (if usersWritable w
      then Inr (w\<lparr>usersFile := Some us, writeLog := USERS_FILE # writeLog w\<rparr>)
      else Inl WriteError)"

definition readUsage :: "world \<Rightarrow> error + usage_store" where
  "readUsage w = (case usageFile w of None \<Rightarrow> Inl ReadError | Some s \<Rightarrow> Inr s)"

definition writeUsage :: "usage_store \<Rightarrow> world \<Rightarrow> error + world" where
  "writeUsage s w =
     (if usageWritable w
      then Inr (w\<lparr>usageFile := Some s, writeLog := USAGE_FILE # writeLog w\<rparr>)
      else Inl WriteError)"

text \<open>\<open>try { store = utils.readJson(USAGE_FILE); } catch { store = {}; }\<close>\<close>

definition readUsageOrEmpty :: "world \<Rightarrow> usage_store" where
  "readUsageOrEmpty w = (case readUsage w of Inl e \<Rightarrow> Map.empty | Inr s \<Rightarrow> s)"

section \<open>The stats query and the reconciliation step\<close>

text \<open>\<open>a || b\<close> on strings.\<close>

definition js_or :: "string \<Rightarrow> string \<Rightarrow> string" where
  "js_or a b = (if a \<noteq> [] then a else b)"

text \<open>\<open>u.statKey || u.displayName || u.username || u.uuid\<close>\<close>

definition statKeyOf :: "user \<Rightarrow> string" where
  "statKeyOf u = js_or (statKey u) (js_or (displayName u) (js_or (username u) (uuid u)))"

definition statPrefix :: "string \<Rightarrow> string" where
  "statPrefix k = ''user>>>'' @ k @ ''>>>traffic>>>''"

definition startsWith :: "string \<Rightarrow> string \<Rightarrow> bool" where
  "startsWith s p = (take (length p) s = p)"

text \<open>The loop over \<open>j.stat\<close>, adding to \<open>rawBytes\<close>.\<close>

fun sumStats :: "string \<Rightarrow> stat list \<Rightarrow> int \<Rightarrow> int" where
  "sumStats k [] rawBytes = rawBytes"
| "sumStats k (s # ss) rawBytes =
     sumStats k ss
       (if stat_name s \<noteq> [] \<and> startsWith (stat_name s) (statPrefix k)
        then (case stat_value s of Some v \<Rightarrow> rawBytes + v | None \<Rightarrow> rawBytes)
        else rawBytes)"

definition queryRawBytes :: "string \<Rightarrow> query_result \<Rightarrow> int" where
  "queryRawBytes k r = (case r of QueryFailed \<Rightarrow> 0 | QueryOk ss \<Rightarrow> sumStats k ss 0)"

text \<open>
  Lines 141 to 146: the new entry for a key and whether the step sets \<open>storeChanged\<close>.
\<close>

definition reconcile :: "entry option \<Rightarrow> int \<Rightarrow> entry \<times> bool" where
  "reconcile old rawBytes =
     (case old of
        None \<Rightarrow> (\<lparr>accumBytes = rawBytes, lastRawBytes = rawBytes\<rparr>, True)
      | Some prev \<Rightarrow>
          if rawBytes \<ge> lastRawBytes prev
          then (if rawBytes > lastRawBytes prev
                then (prev\<lparr>accumBytes := accumBytes prev + (rawBytes - lastRawBytes prev),
                           lastRawBytes := rawBytes\<rparr>, True)
                else (prev, False))
          else (prev\<lparr>accumBytes := accumBytes prev + rawBytes, lastRawBytes := rawBytes\<rparr>, True))"

text \<open>
  One pass of the worker's loop body for the user at index \<open>i\<close>, from the point where the
  query \<open>q i\<close> issued for that user has settled: everything after the \<open>await\<close> runs without
  interruption. The loop only takes indices below \<open>users.length\<close>.
\<close>

definition worker_step :: "(nat \<Rightarrow> query_result) \<Rightarrow> nat \<Rightarrow> acc_state \<Rightarrow> acc_state" where
  "worker_step q i s =
     (if i < length (users s)
      then (let u = users s ! i;
                key = uuid u;
                rawBytes = queryRawBytes (statKeyOf u) (q i);
                (prev, ch) = reconcile (store s key) rawBytes
            in \<lparr>store = (store s)(key \<mapsto> prev),
                users = (users s)[i := u\<lparr>usageAccumBytes := Some (accumBytes prev),
                                         userLastRawBytes := Some (lastRawBytes prev)\<rparr>],
                storeChanged = (storeChanged s \<or> ch)\<rparr>)
      else s)"

text \<open>
  The worker pool takes every index once; the order in which the six workers come back
  from their queries is the schedule \<open>sched\<close>.
\<close>

definition valid_sched :: "nat list \<Rightarrow> nat \<Rightarrow> bool" where
  "valid_sched sched n = (distinct sched \<and> length sched = n \<and> list_all (\<lambda>i. i < n) sched)"

definition accumulateUsageAsync ::
  "(nat \<Rightarrow> query_result) \<Rightarrow> nat list \<Rightarrow> user list \<Rightarrow> world \<Rightarrow> user list \<times> world" where
  "accumulateUsageAsync q sched us w =
     (let s = fold (worker_step q) sched
                \<lparr>store = readUsageOrEmpty w, users = us, storeChanged = False\<rparr>
      in (users s,
          if storeChanged s
          then (case writeUsage (store s) w of Inl e \<Rightarrow> w | Inr w' \<Rightarrow> w')
          else w))"

text \<open>The synchronous \<open>accumulateUsage\<close> of the mutation endpoints.\<close>

definition accumulateUsage :: "user list \<Rightarrow> world \<Rightarrow> user list" where
  "accumulateUsage us w =
     (let st = readUsageOrEmpty w
      in map (\<lambda>u. case st (uuid u) of
                     Some r \<Rightarrow> u\<lparr>usageAccumBytes := Some (accumBytes r),
                                  userLastRawBytes := Some (lastRawBytes r)\<rparr>
                   | None \<Rightarrow> u) us)"

section \<open>Loading the user store\<close>

text \<open>\<open>users.reduce((m,u)=> Number.isFinite(u.id)?Math.max(m,u.id):m, 0)\<close>\<close>

definition maxIdOf :: "user list \<Rightarrow> int" where
  "maxIdOf us = fold (\<lambda>u m. case user_id u of Some i \<Rightarrow> max m i | None \<Rightarrow> m) us 0"

text \<open>The loop of \<open>baseLoadUsers\<close>: the updated records and \<open>needPersist\<close>.\<close>

fun assignDefaults :: "int \<Rightarrow> user list \<Rightarrow> user list \<times> bool" where
  "assignDefaults maxId [] = ([], False)"
| "assignDefaults maxId (u # us) =
     (let noId = (user_id u = None);
          maxId' = (if noId then maxId + 1 else maxId);
          u1 = (if noId then u\<lparr>user_id := Some maxId'\<rparr> else u);
          noKey = (statKey u1 = []);
          u2 = (if noKey
                then u1\<lparr>statKey := js_or (displayName u1) (js_or (username u1) (uuid u1))\<rparr>
                else u1);
          (rest, needPersist) = assignDefaults maxId' us
      in (u2 # rest, noId \<or> noKey \<or> needPersist))"

definition baseLoadUsers :: "world \<Rightarrow> error + (user list \<times> world)" where
  "baseLoadUsers w =
     (case readUsers w of
        Inl e \<Rightarrow> Inl e
      | Inr us \<Rightarrow>
          (let (us', needPersist) = assignDefaults (maxIdOf us) us
           in if needPersist
              then (case writeUsers us' w of Inl e \<Rightarrow> Inl e | Inr w' \<Rightarrow> Inr (us', w'))
              else Inr (us', w)))"

section \<open>Derived fields and the enablement policy\<close>

text \<open>\<open>!!x\<close> on the stored \<open>enabled\<close> value.\<close>

definition truthy :: "flag \<Rightarrow> bool" where
  "truthy b = (case b of Flag v \<Rightarrow> v | FalsyValue \<Rightarrow> False | TruthyValue \<Rightarrow> True)"

text \<open>
  \<open>+x.toFixed(2)\<close>: the nearest multiple of 1/100, ties away from zero, on exact
  rationals (the quotient of a byte count by 2^30 is exact in a double).
\<close>

definition toFixed2 :: "rat \<Rightarrow> rat" where
  "toFixed2 x =
     (if x < 0 then - (of_int \<lfloor>- x * 100 + 1 / 2\<rfloor> / 100) else of_int \<lfloor>x * 100 + 1 / 2\<rfloor> / 100)"

text \<open>
  \<open>daysLeft\<close>; \<open>None\<close> is NaN, which is what the arithmetic gives when \<open>new Date(u.expiry)\<close>
  is an invalid date. \<open>parseDate\<close> is the platform's date parser, in milliseconds.
\<close>

definition daysLeftOf :: "int \<Rightarrow> (string \<Rightarrow> int option) \<Rightarrow> user \<Rightarrow> int option" where
  "daysLeftOf now parseDate u =
     (if expiry u \<noteq> []
      then (case parseDate (expiry u) of
              Some t \<Rightarrow> Some (max 0 \<lceil>(of_int (t - now) :: rat) / 86400000\<rceil>)
            | None \<Rightarrow> None)
      else Some (- 1))"

text \<open>\<open>daysLeft <= 0\<close>, false on NaN.\<close>

definition le_zero :: "int option \<Rightarrow> bool" where
  "le_zero d = (case d of Some n \<Rightarrow> n \<le> 0 | None \<Rightarrow> False)"

definition usagePreciseGB :: "user \<Rightarrow> rat" where
  "usagePreciseGB u = of_int (case usageAccumBytes u of Some b \<Rightarrow> b | None \<Rightarrow> 0) / 1073741824"

definition quotaGB :: "user \<Rightarrow> rat" where
  "quotaGB u = (case quota u of Some q \<Rightarrow> (if q \<noteq> - 1 then q else - 1) | None \<Rightarrow> - 1)"

text \<open>The condition of line 181.\<close>

definition breached :: "int \<Rightarrow> (string \<Rightarrow> int option) \<Rightarrow> user \<Rightarrow> bool" where
  "breached now parseDate u =
     ((quotaGB u \<noteq> - 1 \<and> usagePreciseGB u \<ge> quotaGB u)
      \<or> (expiry u \<noteq> [] \<and> le_zero (daysLeftOf now parseDate u)))"

text \<open>The callback of \<open>users.map\<close> in \<open>aggregate\<close>.\<close>

definition enrich :: "int \<Rightarrow> (string \<Rightarrow> int option) \<Rightarrow> user \<Rightarrow> enriched" where
  "enrich now parseDate u =
     (let usageGB = toFixed2 (usagePreciseGB u);
          remainingPreciseGB =
            (if quotaGB u = - 1 then - 1 else max 0 (quotaGB u - usagePreciseGB u));
          remainingGB = (if remainingPreciseGB = - 1 then - 1 else toFixed2 remainingPreciseGB);
          en0 = truthy (enabled u);
          en = (if breached now parseDate u then False else en0);
          u' = (if Flag en \<noteq> enabled u then u\<lparr>enabled := Flag en\<rparr> else u)
      in user.extend u'
           (enriched.fields usageGB (usagePreciseGB u) remainingGB remainingPreciseGB
              (daysLeftOf now parseDate u)))"

text \<open>The body of the loop in \<open>persistEnabledFlags\<close>, with whether it sets \<open>changed\<close>.\<close>

definition setEnabled :: "(int option \<Rightarrow> flag option) \<Rightarrow> user \<Rightarrow> user \<times> bool" where
  "setEnabled byId u =
     (case byId (user_id u) of
        Some (Flag newEnabled) \<Rightarrow>
          if Flag newEnabled \<noteq> enabled u then (u\<lparr>enabled := Flag newEnabled\<rparr>, True)
          else (u, False)
      | _ \<Rightarrow> (u, False))"

text \<open>\<open>new Map(enriched.map(u=>[u.id,u.enabled]))\<close>: a later pair replaces an earlier one.\<close>

definition enabledById :: "enriched list \<Rightarrow> (int option \<Rightarrow> flag option)" where
  "enabledById enr = map_of (rev (map (\<lambda>u. (user_id u, enabled u)) enr))"

definition persistEnabledFlags :: "enriched list \<Rightarrow> world \<Rightarrow> world" where
  "persistEnabledFlags enr w =
     (case baseLoadUsers w of
        Inl e \<Rightarrow> w
      | Inr (orig, w1) \<Rightarrow>
          (let res = map (setEnabled (enabledById enr)) orig
           in if list_ex snd res
              then (case writeUsers (map fst res) w1 of Inl e \<Rightarrow> w1 | Inr w2 \<Rightarrow> w2)
              else w1))"

section \<open>The aggregation cycle\<close>

text \<open>
  \<open>aggregate\<close> in three parts: the guard on \<open>_isAggregating\<close> (which runs without
  interruption up to setting the flag), the \<open>try\<close> block with its \<open>catch\<close>, and the
  \<open>finally\<close>. \<open>now\<close> and \<open>stamp\<close> are the two readings of the clock that are stored.
\<close>

definition aggregate_enter :: "world \<Rightarrow> world option" where
  "aggregate_enter w = (if isAggregating w then None else Some (w\<lparr>isAggregating := True\<rparr>))"

definition aggregate_try ::
  "int \<Rightarrow> int \<Rightarrow> (string \<Rightarrow> int option) \<Rightarrow> (nat \<Rightarrow> query_result) \<Rightarrow> nat list \<Rightarrow> world \<Rightarrow> world" where
  "aggregate_try now stamp parseDate q sched w =
     (case baseLoadUsers w of
        Inl e \<Rightarrow> w
      | Inr (us, w1) \<Rightarrow>
          (let (us2, w2) = accumulateUsageAsync q sched us w1;
               enr = map (enrich now parseDate) us2;
               w3 = persistEnabledFlags enr w2
           in w3\<lparr>cachedEnriched := enr, cacheStamp := stamp\<rparr>))"

definition aggregate_run ::
  "int \<Rightarrow> int \<Rightarrow> (string \<Rightarrow> int option) \<Rightarrow> (nat \<Rightarrow> query_result) \<Rightarrow> nat list \<Rightarrow> world \<Rightarrow> world" where
  "aggregate_run now stamp parseDate q sched w =
     (aggregate_try now stamp parseDate q sched w)\<lparr>isAggregating := False\<rparr>"

definition aggregate ::
  "int \<Rightarrow> int \<Rightarrow> (string \<Rightarrow> int option) \<Rightarrow> (nat \<Rightarrow> query_result) \<Rightarrow> nat list \<Rightarrow> world \<Rightarrow> world" where
  "aggregate now stamp parseDate q sched w =
     (case aggregate_enter w of
        None \<Rightarrow> w
      | Some w0 \<Rightarrow> aggregate_run now stamp parseDate q sched w0)"

section \<open>The mutation endpoints that touch the enabled flag and the accumulator\<close>

text \<open>
  \<open>users.find(u => u.username === username)\<close>, as the index of the first match: the
  handlers then mutate that element of the array in place.
\<close>

fun findUserIndex :: "string \<Rightarrow> user list \<Rightarrow> nat option" where
  "findUserIndex n [] = None"
| "findUserIndex n (u # us) =
     (if username u = n then Some 0 else map_option Suc (findUserIndex n us))"

text \<open>
  \<open>POST /api/users/:username/reset-quota\<close>. The calls that clear the counters of the stats
  service, synchronise the proxy's client list and restart the proxy act outside the two
  stores and are left out (the reset helpers swallow their own failures and return true).
\<close>

definition resetQuota :: "string \<Rightarrow> world \<Rightarrow> response \<times> world" where
  "resetQuota n w =
     (case readUsers w of
        Inl e \<Rightarrow> (Error500, w)
      | Inr us \<Rightarrow>
          (case findUserIndex n us of
             None \<Rightarrow> (NotFound404, w)
           | Some i \<Rightarrow>
               (let user = us ! i;
                    us1 = us[i := user\<lparr>usageAccumBytes := Some 0, userLastRawBytes := Some 0\<rparr>];
                    st = readUsageOrEmpty w;
                    w1 = (if st (uuid user) \<noteq> None
                          then (case writeUsage
                                       (st(uuid user \<mapsto> \<lparr>accumBytes = 0, lastRawBytes = 0\<rparr>)) w
                                of Inl e \<Rightarrow> w | Inr w' \<Rightarrow> w')
                          else w)
                in case writeUsers us1 w1 of
                     Inl e \<Rightarrow> (Error500, w1)
                   | Inr w2 \<Rightarrow> (Ok200, w2))))"

text \<open>\<open>POST /api/users/:username/enable\<close>, with the same calls left out.\<close>

definition enableUser :: "string \<Rightarrow> world \<Rightarrow> response \<times> world" where
  "enableUser n w =
     (case readUsers w of
        Inl e \<Rightarrow> (Error500, w)
      | Inr us \<Rightarrow>
          (case findUserIndex n us of
             None \<Rightarrow> (NotFound404, w)
           | Some i \<Rightarrow>
               (let us1 = accumulateUsage us w;
                    us2 = us1[i := (us1 ! i)\<lparr>enabled := Flag True\<rparr>]
                in case writeUsers us2 w of
                     Inl e \<Rightarrow> (Error500, w)
                   | Inr w' \<Rightarrow> (Ok200, w'))))"

text \<open>\<open>POST /api/users/:username/disable\<close>, likewise.\<close>

definition disableUser :: "string \<Rightarrow> world \<Rightarrow> response \<times> world" where
  "disableUser n w =
     (case readUsers w of
        Inl e \<Rightarrow> (Error500, w)
      | Inr us \<Rightarrow>
          (case findUserIndex n us of
             None \<Rightarrow> (NotFound404, w)
           | Some i \<Rightarrow>
               (let us1 = accumulateUsage us w;
                    us2 = us1[i := (us1 ! i)\<lparr>enabled := Flag False\<rparr>]
                in case writeUsers us2 w of
                     Inl e \<Rightarrow> (Error500, w)
                   | Inr w' \<Rightarrow> (Ok200, w'))))"

section \<open>Executions: interleavings and successive cycles\<close>

text \<open>
  \<open>aggregate\<close> is an \<open>async\<close> function: between its call and its end the server handles
  other requests while the cycle waits for its stats queries. \<open>aggregate_begin\<close> is what
  runs in one piece at the call: the guard, \<open>baseLoadUsers\<close> (line 170) and, inside
  \<open>accumulateUsageAsync\<close>, the read of the accumulator store (line 119), which both come
  before the first \<open>await\<close>. The copies of the user array and of the store taken there are
  the ones the cycle works on until its end. A failed load goes through \<open>catch\<close> and
  \<open>finally\<close> at once.
\<close>

definition aggregate_begin :: "world \<Rightarrow> world \<times> acc_state option" where
  "aggregate_begin w =
     (case aggregate_enter w of
        None \<Rightarrow> (w, None)
      | Some w0 \<Rightarrow>
          (case baseLoadUsers w0 of
             Inl e \<Rightarrow> (w0\<lparr>isAggregating := False\<rparr>, None)
           | Inr (us, w1) \<Rightarrow>
               (w1, Some \<lparr>store = readUsageOrEmpty w1, users = us, storeChanged = False\<rparr>)))"

text \<open>
  \<open>aggregate_finish\<close> is what runs in one piece once the last query has been reconciled:
  the write of the cycle's copy of the accumulator store if it changed (line 152), the
  snapshot computed from the cycle's copy of the users, \<open>persistEnabledFlags\<close> (which loads
  the user store as it is at that moment and writes the snapshot's flags into it), the
  cache and the \<open>finally\<close>. \<open>w\<close> is the state at that moment, not the one at the call.
\<close>

definition aggregate_finish ::
  "int \<Rightarrow> int \<Rightarrow> (string \<Rightarrow> int option) \<Rightarrow> acc_state \<Rightarrow> world \<Rightarrow> world" where
  "aggregate_finish now stamp parseDate s w =
     (let w2 = (if storeChanged s
                then (case writeUsage (store s) w of Inl e \<Rightarrow> w | Inr w' \<Rightarrow> w')
                else w);
          enr = map (enrich now parseDate) (users s);
          w3 = persistEnabledFlags enr w2
      in w3\<lparr>cachedEnriched := enr, cacheStamp := stamp, isAggregating := False\<rparr>)"

text \<open>
  A cycle in flight: its copies of the store and of the users, and the indexes of the users
  whose query has not been reconciled yet.
\<close>

type_synonym flight = "acc_state \<times> nat list"

text \<open>
  The events of an execution. \<open>Request now stamp\<close> is a call of \<open>aggregate\<close>; its two clock
  readings are used only by a cycle over an empty user array, which ends without waiting
  for a query. \<open>Settled k i r now stamp\<close>: in the \<open>k\<close>-th cycle in flight the query of user
  \<open>i\<close> returns \<open>r\<close> and the worker reconciles it (lines 128-148, which have no \<open>await\<close>);
  when it was the last query pending the cycle ends there, with the clock readings \<open>now\<close>
  and \<open>stamp\<close>. \<open>Enable\<close>, \<open>Disable\<close> and \<open>ResetQuota\<close> are the three endpoints, each served
  in one piece since their handlers have no \<open>await\<close>. The queries of a cycle may settle in
  any order; the pool of six workers only restricts the orders that occur.
\<close>

datatype event =
    Request int int
  | Settled nat nat query_result int int
  | Enable string
  | Disable string
  | ResetQuota string

fun sys_step ::
  "(string \<Rightarrow> int option) \<Rightarrow> event \<Rightarrow> world \<times> flight list \<Rightarrow> world \<times> flight list" where
  "sys_step pd (Request now stamp) (w, fs) =
     (case aggregate_begin w of
        (w1, None) \<Rightarrow> (w1, fs)
      | (w1, Some s) \<Rightarrow>
          if users s = [] then (aggregate_finish now stamp pd s w1, fs)
          else (w1, fs @ [(s, [0..<length (users s)])]))"
| "sys_step pd (Settled k i r now stamp) (w, fs) =
     (if k < length fs \<and> i \<in> set (snd (fs ! k))
      then (let s = worker_step (\<lambda>_. r) i (fst (fs ! k));
                pending = removeAll i (snd (fs ! k))
            in if pending = []
               then (aggregate_finish now stamp pd s w, take k fs @ drop (Suc k) fs)
               else (w, fs[k := (s, pending)]))
      else (w, fs))"
| "sys_step pd (Enable name) (w, fs) = (snd (enableUser name w), fs)"
| "sys_step pd (Disable name) (w, fs) = (snd (disableUser name w), fs)"
| "sys_step pd (ResetQuota name) (w, fs) = (snd (resetQuota name w), fs)"

text \<open>
  The events of one cycle during which nothing else is served: the request, then the
  queries settling in the order \<open>sched\<close>, the query of user \<open>i\<close> returning \<open>q i\<close>; and the
  state such an execution ends in.
\<close>

definition cycle_events :: "int \<Rightarrow> int \<Rightarrow> (nat \<Rightarrow> query_result) \<Rightarrow> nat list \<Rightarrow> event list" where
  "cycle_events now stamp q sched = Request now stamp # map (\<lambda>i. Settled 0 i (q i) now stamp) sched"

definition uninterrupted_cycle ::
  "(string \<Rightarrow> int option) \<Rightarrow> int \<Rightarrow> int \<Rightarrow> (nat \<Rightarrow> query_result) \<Rightarrow> nat list \<Rightarrow> world \<Rightarrow> world" where
  "uninterrupted_cycle pd now stamp q sched w =
     fst (fold (sys_step pd) (cycle_events now stamp q sched) (w, []))"

text \<open>
  Successive cycles with nothing else touching the stores in between. A cycle is given by
  its two clock readings, the outcomes of its queries and the order of its worker pool.
\<close>

type_synonym cycle = "int \<times> int \<times> (nat \<Rightarrow> query_result) \<times> nat list"

fun run_cycles :: "(string \<Rightarrow> int option) \<Rightarrow> cycle list \<Rightarrow> world \<Rightarrow> world" where
  "run_cycles pd [] w = w"
| "run_cycles pd ((now, stamp, q, sched) # cs) w =
     run_cycles pd cs (aggregate now stamp pd q sched w)"

text \<open>The reading of user \<open>u\<close>, at index \<open>j\<close>, in a cycle, and the cycle's worker order.\<close>

definition cycle_raw :: "user \<Rightarrow> nat \<Rightarrow> cycle \<Rightarrow> int" where
  "cycle_raw u j c = (case c of (now, stamp, q, sched) \<Rightarrow> queryRawBytes (statKeyOf u) (q j))"

definition cycle_sched :: "cycle \<Rightarrow> nat list" where
  "cycle_sched c = (case c of (now, stamp, q, sched) \<Rightarrow> sched)"

text \<open>How often each file has been written.\<close>

definition usageWrites :: "world \<Rightarrow> nat" where
  "usageWrites w = length (filter (\<lambda>f. f = USAGE_FILE) (writeLog w))"

definition usersWrites :: "world \<Rightarrow> nat" where
  "usersWrites w = length (filter (\<lambda>f. f = USERS_FILE) (writeLog w))"

section \<open>The policy in the words of the specification\<close>

text \<open>
  \<open>daysLeft\<close>: \<open>-1\<close> if no expiry is set; otherwise \<open>ceil((expiry - now) / 1 day)\<close>, floored at
  0. \<open>expiryTime\<close> is the expiry as a time in milliseconds, \<open>None\<close> when the stored string is
  not a date; the result is then no number either.
\<close>

definition spec_daysLeft :: "int \<Rightarrow> bool \<Rightarrow> int option \<Rightarrow> int option" where
  "spec_daysLeft now expirySet expiryTime =
     (if \<not> expirySet then Some (- 1)
      else (case expiryTime of
              Some t \<Rightarrow> Some (max 0 \<lceil>(of_int (t - now) :: rat) / 86400000\<rceil>)
            | None \<Rightarrow> None))"

text \<open>
  breached = (quota is a number other than \<open>-1\<close> and usage in GB \<open>>=\<close> quota) or (expiry is
  set and \<open>daysLeft <= 0\<close>).
\<close>

definition spec_breached :: "rat option \<Rightarrow> rat \<Rightarrow> bool \<Rightarrow> int option \<Rightarrow> bool" where
  "spec_breached q usageGB expirySet dl =
     ((case q of Some qv \<Rightarrow> qv \<noteq> - 1 \<and> usageGB \<ge> qv | None \<Rightarrow> False)
      \<or> (expirySet \<and> (case dl of Some d \<Rightarrow> d \<le> 0 | None \<Rightarrow> False)))"

section \<open>Vocabulary of the proofs\<close>

text \<open>A user record without the two fields that the worker loop writes.\<close>

definition strip :: "user \<Rightarrow> user" where
  "strip u = u\<lparr>usageAccumBytes := None, userLastRawBytes := None\<rparr>"

text \<open>The reading that the worker loop gets for the user at index \<open>i\<close>.\<close>

definition rawOf :: "(nat \<Rightarrow> query_result) \<Rightarrow> user list \<Rightarrow> nat \<Rightarrow> int" where
  "rawOf q us i = queryRawBytes (statKeyOf (us ! i)) (q i)"

text \<open>
  One pass of the loop of \<open>baseLoadUsers\<close> in closed form: the record it leaves, the
  running maximum, and whether it asks for a write.
\<close>

definition keyDefault :: "user \<Rightarrow> string" where
  "keyDefault u = (if statKey u = [] then js_or (displayName u) (js_or (username u) (uuid u))
                   else statKey u)"

definition defaulted :: "int \<Rightarrow> user \<Rightarrow> user" where
  "defaulted m u = u\<lparr>user_id := (if user_id u = None then Some (m + 1) else user_id u),
                      statKey := keyDefault u\<rparr>"

definition nextMax :: "int \<Rightarrow> user \<Rightarrow> int" where
  "nextMax m u = (if user_id u = None then m + 1 else m)"

definition lacksDefaults :: "user \<Rightarrow> bool" where
  "lacksDefaults u = (user_id u = None \<or> statKey u = [])"

text \<open>The list that \<open>baseLoadUsers\<close> returns for the file content \<open>us\<close>.\<close>

definition loaded :: "user list \<Rightarrow> user list" where
  "loaded us = fst (assignDefaults (maxIdOf us) us)"

text \<open>The state of \<open>accumulateUsageAsync\<close> when its worker pool has finished.\<close>

definition accState :: "(nat \<Rightarrow> query_result) \<Rightarrow> nat list \<Rightarrow> user list \<Rightarrow> world \<Rightarrow> acc_state" where
  "accState q sched us w =
     fold (worker_step q) sched \<lparr>store = readUsageOrEmpty w, users = us, storeChanged = False\<rparr>"

text \<open>The records and the flag \<open>changed\<close> at the end of the loop of \<open>persistEnabledFlags\<close>.\<close>

definition flagsOf :: "enriched list \<Rightarrow> user list \<Rightarrow> user list" where
  "flagsOf enr us = map (\<lambda>u. fst (setEnabled (enabledById enr) u)) us"

definition flagsChanged :: "enriched list \<Rightarrow> user list \<Rightarrow> bool" where
  "flagsChanged enr us = list_ex (\<lambda>u. snd (setEnabled (enabledById enr) u)) us"

text \<open>The snapshot that a cycle builds from the file content \<open>us\<close>.\<close>

definition snapshotOf ::
  "int \<Rightarrow> (string \<Rightarrow> int option) \<Rightarrow> (nat \<Rightarrow> query_result) \<Rightarrow> nat list \<Rightarrow> user list \<Rightarrow> world
     \<Rightarrow> enriched list" where
  "snapshotOf now parseDate q sched us w =
     map (enrich now parseDate) (users (accState q sched (loaded us) w))"

text \<open>The list of cycles in flight agrees with the flag.\<close>

definition in_flight_ok :: "world \<times> flight list \<Rightarrow> bool" where
  "in_flight_ok s = (length (snd s) = (if isAggregating (fst s) then 1 else 0))"

text \<open>
  A state between two cycles of a run: idle, both files writable, and a user store whose
  keys are those of \<open>us0\<close>.
\<close>

definition steady :: "user list \<Rightarrow> world \<Rightarrow> bool" where
  "steady us0 w = (\<not> isAggregating w \<and> usersWritable w \<and> usageWritable w
     \<and> (case usersFile w of None \<Rightarrow> False
         | Some us \<Rightarrow> map uuid us = map uuid us0 \<and> map statKeyOf us = map statKeyOf us0))"

text \<open>The entry of one key after a list of readings.\<close>

definition observe :: "int list \<Rightarrow> entry option \<Rightarrow> entry option" where
  "observe rs old = fold (\<lambda>r e. Some (fst (reconcile e r))) rs old"

section \<open>Concrete inputs\<close>

definition alice :: user where
  "alice = \<lparr>user_id = Some 1, username = ''alice'', uuid = ''u-1'', displayName = [],
            statKey = ''alice'', quota = Some 1, expiry = [], enabled = Flag True,
            usageAccumBytes = None, userLastRawBytes = None\<rparr>"

definition bob :: user where
  "bob = \<lparr>user_id = Some 2, username = ''bob'', uuid = ''u-2'', displayName = [],
          statKey = ''bob'', quota = None, expiry = [], enabled = Flag True,
          usageAccumBytes = None, userLastRawBytes = None\<rparr>"

text \<open>A record that has no \<open>statKey\<close> yet.\<close>

definition carol :: user where
  "carol = \<lparr>user_id = Some 3, username = ''carol'', uuid = ''u-3'', displayName = [],
            statKey = [], quota = None, expiry = [], enabled = Flag True,
            usageAccumBytes = None, userLastRawBytes = None\<rparr>"

text \<open>A query output with one uplink counter for the key \<open>k\<close>.\<close>

definition uplink :: "string \<Rightarrow> int \<Rightarrow> query_result" where
  "uplink k n = QueryOk [\<lparr>stat_name = ''user>>>'' @ k @ ''>>>traffic>>>uplink'',
                          stat_value = Some n\<rparr>]"

text \<open>The query of the user at index 1 answers, every other query fails.\<close>

definition q_bob_only :: "nat \<Rightarrow> query_result" where
  "q_bob_only i = (if i = 1 then uplink ''bob'' 450 else QueryFailed)"

text \<open>One user and an empty accumulator store.\<close>

definition w_fresh :: world where
  "w_fresh = \<lparr>usersFile = Some [alice], usageFile = Some Map.empty,
              usersWritable = True, usageWritable = True, writeLog = [],
              cachedEnriched = [], cacheStamp = 0, isAggregating = False\<rparr>"

text \<open>One user with a quota of 1 GB, 824 bytes below it.\<close>

definition w_quota :: world where
  "w_quota = \<lparr>usersFile = Some [alice],
              usageFile = Some [''u-1'' \<mapsto> \<lparr>accumBytes = 1073741000, lastRawBytes = 700\<rparr>],
              usersWritable = True, usageWritable = True, writeLog = [],
              cachedEnriched = [], cacheStamp = 0, isAggregating = False\<rparr>"

text \<open>A disabled user at exactly 1 GB of a 1 GB quota.\<close>

definition w_over :: world where
  "w_over = \<lparr>usersFile = Some [alice\<lparr>enabled := Flag False\<rparr>],
              usageFile = Some [''u-1'' \<mapsto> \<lparr>accumBytes = 1073741824, lastRawBytes = 700\<rparr>],
              usersWritable = True, usageWritable = True, writeLog = [],
              cachedEnriched = [], cacheStamp = 0, isAggregating = False\<rparr>"

text \<open>An accumulator store that cannot be read; a user store that cannot be read.\<close>

definition w_nostore :: world where
  "w_nostore = \<lparr>usersFile = Some [alice], usageFile = None,
              usersWritable = True, usageWritable = True, writeLog = [],
              cachedEnriched = [], cacheStamp = 0, isAggregating = False\<rparr>"

definition w_nousers :: world where
  "w_nousers = \<lparr>usersFile = None,
              usageFile = Some [''u-1'' \<mapsto> \<lparr>accumBytes = 200, lastRawBytes = 700\<rparr>],
              usersWritable = True, usageWritable = True, writeLog = [],
              cachedEnriched = [], cacheStamp = 0, isAggregating = False\<rparr>"

text \<open>A cycle is in flight.\<close>

definition w_busy :: world where
  "w_busy = \<lparr>usersFile = Some [alice],
              usageFile = Some [''u-1'' \<mapsto> \<lparr>accumBytes = 200, lastRawBytes = 700\<rparr>],
              usersWritable = True, usageWritable = True, writeLog = [],
              cachedEnriched = [], cacheStamp = 0, isAggregating = True\<rparr>"

text \<open>Two users with entries.\<close>

definition w_two :: world where
  "w_two = \<lparr>usersFile = Some [alice, bob],
              usageFile = Some [''u-1'' \<mapsto> \<lparr>accumBytes = 200, lastRawBytes = 700\<rparr>,
                                ''u-2'' \<mapsto> \<lparr>accumBytes = 50, lastRawBytes = 300\<rparr>],
              usersWritable = True, usageWritable = True, writeLog = [],
              cachedEnriched = [], cacheStamp = 0, isAggregating = False\<rparr>"

text \<open>A record without \<open>statKey\<close> whose reading equals the stored one.\<close>

definition w_carol :: world where
  "w_carol = \<lparr>usersFile = Some [carol],
              usageFile = Some [''u-3'' \<mapsto> \<lparr>accumBytes = 40, lastRawBytes = 40\<rparr>],
              usersWritable = True, usageWritable = True, writeLog = [],
              cachedEnriched = [], cacheStamp = 0, isAggregating = False\<rparr>"

text \<open>
  Users whose stored \<open>enabled\<close> is \<open>false\<close>, a falsy value that is not a boolean, and a
  truthy value that is not a boolean; and a user whose expiry has passed.
\<close>

definition dan :: user where
  "dan = \<lparr>user_id = Some 4, username = ''dan'', uuid = ''u-4'', displayName = [],
          statKey = ''dan'', quota = None, expiry = [], enabled = Flag False,
          usageAccumBytes = None, userLastRawBytes = None\<rparr>"

definition erin :: user where
  "erin = \<lparr>user_id = Some 5, username = ''erin'', uuid = ''u-5'', displayName = [],
          statKey = ''erin'', quota = None, expiry = [], enabled = FalsyValue,
          usageAccumBytes = None, userLastRawBytes = None\<rparr>"

definition fay :: user where
  "fay = \<lparr>user_id = Some 6, username = ''fay'', uuid = ''u-6'', displayName = [],
          statKey = ''fay'', quota = None, expiry = [], enabled = TruthyValue,
          usageAccumBytes = None, userLastRawBytes = None\<rparr>"

definition gus :: user where
  "gus = \<lparr>user_id = Some 7, username = ''gus'', uuid = ''u-7'', displayName = [],
          statKey = ''gus'', quota = None, expiry = ''2020-01-01 00:00:00'',
          enabled = Flag True, usageAccumBytes = None, userLastRawBytes = None\<rparr>"

text \<open>Records without \<open>id\<close> and without \<open>statKey\<close>, one of them with a display name.\<close>

definition hal :: user where
  "hal = \<lparr>user_id = None, username = ''hal'', uuid = ''u-8'', displayName = ''Hal'',
          statKey = [], quota = None, expiry = [], enabled = Flag True,
          usageAccumBytes = None, userLastRawBytes = None\<rparr>"

definition ivy :: user where
  "ivy = \<lparr>user_id = None, username = ''ivy'', uuid = ''u-9'', displayName = [],
          statKey = [], quota = None, expiry = [], enabled = Flag False,
          usageAccumBytes = None, userLastRawBytes = None\<rparr>"

text \<open>\<open>new Date\<close> on the one expiry string in use (milliseconds since the epoch, UTC).\<close>

definition pd_2020 :: "string \<Rightarrow> int option" where
  "pd_2020 s = (if s = ''2020-01-01 00:00:00'' then Some 1577836800000 else None)"

text \<open>The query of the user at index 0 answers, every other query fails.\<close>

definition q_alice_only :: "nat \<Rightarrow> query_result" where
  "q_alice_only i = (if i = 0 then uplink ''alice'' 2000 else QueryFailed)"

text \<open>Six users, one of them close to the quota, one past the expiry.\<close>

definition w_policy :: world where
  "w_policy = \<lparr>usersFile = Some [alice, bob, dan, erin, fay, gus],
                usageFile = Some [''u-1'' \<mapsto> \<lparr>accumBytes = 1073741000, lastRawBytes = 700\<rparr>],
                usersWritable = True, usageWritable = True, writeLog = [],
                cachedEnriched = [], cacheStamp = 0, isAggregating = False\<rparr>"

text \<open>One enabled user without quota and without expiry.\<close>

definition w_bob :: world where
  "w_bob = \<lparr>usersFile = Some [bob],
             usageFile = Some [''u-2'' \<mapsto> \<lparr>accumBytes = 50, lastRawBytes = 300\<rparr>],
             usersWritable = True, usageWritable = True, writeLog = [],
             cachedEnriched = [], cacheStamp = 0, isAggregating = False\<rparr>"

text \<open>A user store in which two records lack \<open>id\<close> and \<open>statKey\<close>.\<close>

definition w_defaults :: world where
  "w_defaults = \<lparr>usersFile = Some [hal, alice, ivy],
                 usageFile = Some [''u-1'' \<mapsto> \<lparr>accumBytes = 1073741000, lastRawBytes = 700\<rparr>],
                 usersWritable = True, usageWritable = True, writeLog = [],
                 cachedEnriched = [], cacheStamp = 0, isAggregating = False\<rparr>"

section \<open>Lemmas on the reconciliation step\<close>

lemma reconcile_Some:
  "reconcile (Some e) r =
     (if r \<ge> lastRawBytes e
      then (e\<lparr>accumBytes := accumBytes e + (r - lastRawBytes e), lastRawBytes := r\<rparr>,
            r > lastRawBytes e)
      else (e\<lparr>accumBytes := accumBytes e + r, lastRawBytes := r\<rparr>, True))"
  by (cases "r = lastRawBytes e") (auto simp: reconcile_def)


section \<open>The worker loop\<close>

subsection \<open>Fields that the loop leaves alone\<close>

lemma strip_fields [simp]:
  "uuid (strip u) = uuid u" "statKeyOf (strip u) = statKeyOf u" "user_id (strip u) = user_id u"
  "enabled (strip u) = enabled u" "quota (strip u) = quota u" "expiry (strip u) = expiry u"
  "statKey (strip u) = statKey u" "username (strip u) = username u"
  "displayName (strip u) = displayName u"
  by (simp_all add: strip_def statKeyOf_def)

lemma strip_usage_update [simp]:
  "strip (u\<lparr>usageAccumBytes := a, userLastRawBytes := b\<rparr>) = strip u"
  by (simp add: strip_def)

lemma worker_step_strip: "map strip (users (worker_step q i s)) = map strip (users s)"
  by (auto simp: worker_step_def Let_def map_update list_update_same_conv split: prod.splits)

lemma fold_worker_strip: "map strip (users (fold (worker_step q) sched s)) = map strip (users s)"
  by (induction sched arbitrary: s) (simp_all add: worker_step_strip)

lemma strip_nth:
  assumes "map strip xs = map strip ys" and "j < length ys"
  shows "strip (xs ! j) = strip (ys ! j)"
proof -
  have "length xs = length ys" using assms(1) by (metis length_map)
  then have "map strip xs ! j = strip (xs ! j)" "map strip ys ! j = strip (ys ! j)"
    using assms(2) by simp_all
  then show ?thesis using assms(1) by simp
qed

lemma strip_eq_fields:
  assumes "strip x = strip y"
  shows "uuid x = uuid y" "statKeyOf x = statKeyOf y" "user_id x = user_id y"
    "enabled x = enabled y" "quota x = quota y" "expiry x = expiry y"
  using assms strip_fields by metis+

lemma worker_step_length [simp]: "length (users (worker_step q i s)) = length (users s)"
  by (simp add: worker_step_def Let_def split: prod.splits)

lemma fold_worker_length [simp]: "length (users (fold (worker_step q) sched s)) = length (users s)"
  by (induction sched arbitrary: s) simp_all

lemma worker_step_uuid: "j < length (users s) \<Longrightarrow> uuid (users (worker_step q i s) ! j) = uuid (users s ! j)"
proof -
  assume "j < length (users s)"
  then have "strip (users (worker_step q i s) ! j) = strip (users s ! j)"
    by (rule strip_nth [OF worker_step_strip])
  then show ?thesis by (rule strip_eq_fields(1))
qed

lemma worker_step_rawOf: "j < length (users s) \<Longrightarrow> rawOf q (users (worker_step q i s)) j = rawOf q (users s) j"
proof -
  assume "j < length (users s)"
  then have "strip (users (worker_step q i s) ! j) = strip (users s ! j)"
    by (rule strip_nth [OF worker_step_strip])
  then have "statKeyOf (users (worker_step q i s) ! j) = statKeyOf (users s ! j)"
    by (rule strip_eq_fields(2))
  then show ?thesis by (simp add: rawOf_def)
qed

subsection \<open>The store and the user array after the loop\<close>

lemma worker_step_store_key:
  "i < length (users s) \<Longrightarrow>
   store (worker_step q i s) (uuid (users s ! i)) =
     Some (fst (reconcile (store s (uuid (users s ! i))) (rawOf q (users s) i)))"
  by (simp add: worker_step_def Let_def rawOf_def split: prod.splits)

lemma worker_step_store_other:
  "i < length (users s) \<Longrightarrow> k \<noteq> uuid (users s ! i) \<Longrightarrow> store (worker_step q i s) k = store s k"
  by (simp add: worker_step_def Let_def split: prod.splits)

lemma worker_step_out_of_range: "\<not> i < length (users s) \<Longrightarrow> worker_step q i s = s"
  by (simp add: worker_step_def)

lemma worker_step_user_self:
  "i < length (users s) \<Longrightarrow>
   usageAccumBytes (users (worker_step q i s) ! i) =
     Some (accumBytes (fst (reconcile (store s (uuid (users s ! i))) (rawOf q (users s) i))))"
  by (simp add: worker_step_def Let_def rawOf_def split: prod.splits)

lemma worker_step_user_other: "j \<noteq> i \<Longrightarrow> users (worker_step q i s) ! j = users s ! j"
  by (simp add: worker_step_def Let_def split: prod.splits)

lemma fold_worker_user_other: "j \<notin> set sched \<Longrightarrow> users (fold (worker_step q) sched s) ! j = users s ! j"
  by (induction sched arbitrary: s) (simp_all add: worker_step_user_other)

lemma fold_worker_store_other:
  "\<forall>i\<in>set sched. i < length (users s) \<longrightarrow> uuid (users s ! i) \<noteq> k \<Longrightarrow>
   store (fold (worker_step q) sched s) k = store s k"
proof (induction sched arbitrary: s)
  case Nil
  then show ?case by simp
next
  case (Cons i sched)
  have rest: "\<forall>i'\<in>set sched. i' < length (users (worker_step q i s)) \<longrightarrow> uuid (users (worker_step q i s) ! i') \<noteq> k"
    using Cons.prems by (simp add: worker_step_uuid)
  have "store (worker_step q i s) k = store s k"
  proof (cases "i < length (users s)")
    case True
    then show ?thesis using Cons.prems by (intro worker_step_store_other) auto
  next
    case False
    then show ?thesis by (simp add: worker_step_out_of_range)
  qed
  then show ?case using Cons.IH [OF rest] by simp
qed

lemma fold_worker_store_key:
  assumes "distinct (map uuid (users s))" and "distinct sched" and "j \<in> set sched"
    and "j < length (users s)"
  shows "store (fold (worker_step q) sched s) (uuid (users s ! j)) =
           Some (fst (reconcile (store s (uuid (users s ! j))) (rawOf q (users s) j)))
         \<and> usageAccumBytes (users (fold (worker_step q) sched s) ! j) =
           Some (accumBytes (fst (reconcile (store s (uuid (users s ! j))) (rawOf q (users s) j))))"
  using assms
proof (induction sched arbitrary: s)
  case Nil
  then show ?case by simp
next
  case (Cons i sched)
  let ?s1 = "worker_step q i s"
  have len: "length (users ?s1) = length (users s)" by simp
  have uu: "map uuid (users ?s1) = map uuid (users s)"
    by (rule nth_equalityI) (simp_all add: worker_step_uuid)
  show ?case
  proof (cases "j = i")
    case True
    have notin: "j \<notin> set sched" using Cons.prems(2) True by simp
    have other: "\<forall>i'\<in>set sched. i' < length (users ?s1) \<longrightarrow> uuid (users ?s1 ! i') \<noteq> uuid (users s ! j)"
    proof (intro ballI impI)
      fix i' assume i': "i' \<in> set sched" "i' < length (users ?s1)"
      then have "i' \<noteq> j" using notin by auto
      moreover have "i' < length (users s)" using i' by simp
      ultimately have "uuid (users s ! i') \<noteq> uuid (users s ! j)"
        using Cons.prems(1,4) by (simp add: distinct_conv_nth)
      then show "uuid (users ?s1 ! i') \<noteq> uuid (users s ! j)"
        using \<open>i' < length (users s)\<close> by (simp add: worker_step_uuid)
    qed
    have "store (fold (worker_step q) sched ?s1) (uuid (users s ! j)) = store ?s1 (uuid (users s ! j))"
      by (rule fold_worker_store_other [OF other])
    moreover have "users (fold (worker_step q) sched ?s1) ! j = users ?s1 ! j"
      by (rule fold_worker_user_other [OF notin])
    ultimately show ?thesis
      using True Cons.prems(4) by (simp add: worker_step_store_key worker_step_user_self)
  next
    case False
    then have jin: "j \<in> set sched" using Cons.prems(3) by simp
    have d1: "distinct (map uuid (users ?s1))" using uu Cons.prems(1) by simp
    have IH: "store (fold (worker_step q) sched ?s1) (uuid (users ?s1 ! j)) =
           Some (fst (reconcile (store ?s1 (uuid (users ?s1 ! j))) (rawOf q (users ?s1) j)))
         \<and> usageAccumBytes (users (fold (worker_step q) sched ?s1) ! j) =
           Some (accumBytes (fst (reconcile (store ?s1 (uuid (users ?s1 ! j))) (rawOf q (users ?s1) j))))"
      using Cons.IH [OF d1 _ jin] Cons.prems(2,4) by simp
    have same: "store ?s1 (uuid (users s ! j)) = store s (uuid (users s ! j))"
    proof (cases "i < length (users s)")
      case True
      then have "uuid (users s ! j) \<noteq> uuid (users s ! i)"
        using False Cons.prems(1,4) by (simp add: distinct_conv_nth)
      then show ?thesis using True by (simp add: worker_step_store_other)
    next
      case False
      then show ?thesis by (simp add: worker_step_out_of_range)
    qed
    show ?thesis using IH same Cons.prems(4) by (simp add: worker_step_uuid worker_step_rawOf)
  qed
qed

subsection \<open>Steps that change nothing, and steps that only add\<close>

lemma reconcile_mono:
  "0 \<le> r \<Longrightarrow> accumBytes e \<le> accumBytes (fst (reconcile (Some e) r))"
  by (simp add: reconcile_Some)

lemma reconcile_unchanged:
  "\<not> snd (reconcile old r) \<Longrightarrow> old = Some (fst (reconcile old r))"
  by (cases old) (auto simp: reconcile_def split: if_splits)

lemma reconcile_same_raw:
  "r = lastRawBytes e \<Longrightarrow> reconcile (Some e) r = (e, False)"
  by (simp add: reconcile_def)

lemma worker_step_storeChanged:
  "storeChanged (worker_step q i s) =
     (storeChanged s \<or> (i < length (users s) \<and>
        snd (reconcile (store s (uuid (users s ! i))) (rawOf q (users s) i))))"
  by (simp add: worker_step_def Let_def rawOf_def split: prod.splits)

lemma worker_step_store_unchanged:
  assumes "\<not> storeChanged (worker_step q i s)"
  shows "store (worker_step q i s) = store s"
proof (cases "i < length (users s)")
  case True
  let ?k = "uuid (users s ! i)"
  have "\<not> snd (reconcile (store s ?k) (rawOf q (users s) i))"
    using assms True by (simp add: worker_step_storeChanged)
  then have old: "store s ?k = Some (fst (reconcile (store s ?k) (rawOf q (users s) i)))"
    by (rule reconcile_unchanged)
  show ?thesis
  proof (rule ext)
    fix k
    show "store (worker_step q i s) k = store s k"
    proof (cases "k = ?k")
      case True
      then show ?thesis using old \<open>i < length (users s)\<close> by (simp add: worker_step_store_key)
    next
      case False
      then show ?thesis using \<open>i < length (users s)\<close> by (simp add: worker_step_store_other)
    qed
  qed
next
  case False
  then show ?thesis by (simp add: worker_step_out_of_range)
qed

lemma fold_worker_storeChanged_mono:
  "storeChanged s \<Longrightarrow> storeChanged (fold (worker_step q) sched s)"
  by (induction sched arbitrary: s) (simp_all add: worker_step_storeChanged)

lemma fold_worker_store_unchanged:
  "\<not> storeChanged (fold (worker_step q) sched s) \<Longrightarrow> store (fold (worker_step q) sched s) = store s"
proof (induction sched arbitrary: s)
  case Nil
  then show ?case by simp
next
  case (Cons i sched)
  have "\<not> storeChanged (worker_step q i s)"
    using Cons.prems fold_worker_storeChanged_mono by fastforce
  then have "store (worker_step q i s) = store s" by (rule worker_step_store_unchanged)
  then show ?case using Cons by simp
qed

text \<open>Monotonicity of one step and of the whole loop.\<close>

lemma worker_step_mono:
  assumes "\<forall>i<length (users s). 0 \<le> rawOf q (users s) i" and "store s k = Some e"
  shows "\<exists>e'. store (worker_step q i s) k = Some e' \<and> accumBytes e \<le> accumBytes e'"
proof (cases "i < length (users s) \<and> k = uuid (users s ! i)")
  case True
  then show ?thesis using assms by (simp add: worker_step_store_key reconcile_mono)
next
  case False
  then have "store (worker_step q i s) k = store s k"
    by (cases "i < length (users s)") (simp_all add: worker_step_store_other worker_step_out_of_range)
  then show ?thesis using assms(2) by simp
qed

lemma fold_worker_mono:
  assumes "\<forall>i<length (users s). 0 \<le> rawOf q (users s) i" and "store s k = Some e"
  shows "\<exists>e'. store (fold (worker_step q) sched s) k = Some e' \<and> accumBytes e \<le> accumBytes e'"
  using assms
proof (induction sched arbitrary: s e)
  case Nil
  then show ?case by simp
next
  case (Cons i sched)
  obtain e1 where e1: "store (worker_step q i s) k = Some e1" "accumBytes e \<le> accumBytes e1"
    using worker_step_mono [OF Cons.prems] by blast
  have raws: "\<forall>j<length (users (worker_step q i s)). 0 \<le> rawOf q (users (worker_step q i s)) j"
    using Cons.prems(1) by (simp add: worker_step_rawOf)
  obtain e' where "store (fold (worker_step q) sched (worker_step q i s)) k = Some e'"
    "accumBytes e1 \<le> accumBytes e'"
    using Cons.IH [OF raws e1(1)] by blast
  then show ?case using e1(2) by auto
qed

lemma fold_worker_user_mono:
  assumes "\<forall>i<length (users s). 0 \<le> rawOf q (users s) i"
    and "j \<in> set sched" and "j < length (users s)"
    and "store s (uuid (users s ! j)) = Some e"
  shows "\<exists>a. usageAccumBytes (users (fold (worker_step q) sched s) ! j) = Some a \<and> accumBytes e \<le> a"
  using assms
proof (induction sched arbitrary: s e)
  case Nil
  then show ?case by simp
next
  case (Cons i sched)
  let ?s1 = "worker_step q i s"
  have raws: "\<forall>j<length (users ?s1). 0 \<le> rawOf q (users ?s1) j"
    using Cons.prems(1) by (simp add: worker_step_rawOf)
  obtain e1 where e1: "store ?s1 (uuid (users s ! j)) = Some e1" "accumBytes e \<le> accumBytes e1"
    using worker_step_mono [OF Cons.prems(1,4)] by blast
  show ?case
  proof (cases "j \<in> set sched")
    case True
    have "store ?s1 (uuid (users ?s1 ! j)) = Some e1"
      using e1(1) Cons.prems(3) by (simp add: worker_step_uuid)
    then obtain a where "usageAccumBytes (users (fold (worker_step q) sched ?s1) ! j) = Some a"
      "accumBytes e1 \<le> a"
      using Cons.IH [OF raws True, of e1] Cons.prems(3) by auto
    then show ?thesis using e1(2) by auto
  next
    case False
    then have ji: "j = i" using Cons.prems(2) by simp
    have "users (fold (worker_step q) sched ?s1) ! j = users ?s1 ! j"
      by (rule fold_worker_user_other [OF False])
    moreover have "usageAccumBytes (users ?s1 ! j) =
       Some (accumBytes (fst (reconcile (store s (uuid (users s ! j))) (rawOf q (users s) j))))"
      using ji Cons.prems(3) by (simp add: worker_step_user_self)
    moreover have "accumBytes e \<le> accumBytes (fst (reconcile (Some e) (rawOf q (users s) j)))"
      using Cons.prems(1,3) by (simp add: reconcile_mono)
    ultimately show ?thesis using Cons.prems(4) by simp
  qed
qed

text \<open>A pass in which every reading equals the stored one.\<close>

lemma worker_step_noop:
  assumes "i < length (users s)" and "store s (uuid (users s ! i)) = Some e"
    and "rawOf q (users s) i = lastRawBytes e"
  shows "store (worker_step q i s) = store s \<and> storeChanged (worker_step q i s) = storeChanged s"
proof -
  have "reconcile (store s (uuid (users s ! i))) (rawOf q (users s) i) = (e, False)"
    using assms(2,3) by (simp add: reconcile_same_raw)
  then have ch: "storeChanged (worker_step q i s) = storeChanged s"
    by (simp add: worker_step_storeChanged)
  have "store (worker_step q i s) = store s"
  proof (rule ext)
    fix k
    show "store (worker_step q i s) k = store s k"
      using assms \<open>reconcile _ _ = (e, False)\<close>
      by (cases "k = uuid (users s ! i)") (simp_all add: worker_step_store_key worker_step_store_other)
  qed
  then show ?thesis using ch by simp
qed

lemma fold_worker_noop:
  assumes "\<forall>i<length (users s). \<exists>e. store s (uuid (users s ! i)) = Some e
             \<and> rawOf q (users s) i = lastRawBytes e"
  shows "store (fold (worker_step q) sched s) = store s
         \<and> storeChanged (fold (worker_step q) sched s) = storeChanged s"
  using assms
proof (induction sched arbitrary: s)
  case Nil
  then show ?case by simp
next
  case (Cons i sched)
  let ?s1 = "worker_step q i s"
  have step: "store ?s1 = store s \<and> storeChanged ?s1 = storeChanged s"
  proof (cases "i < length (users s)")
    case True
    then obtain e where "store s (uuid (users s ! i)) = Some e" "rawOf q (users s) i = lastRawBytes e"
      using Cons.prems by blast
    then show ?thesis using True worker_step_noop by blast
  next
    case False
    then show ?thesis by (simp add: worker_step_out_of_range)
  qed
  have "\<forall>j<length (users ?s1). \<exists>e. store ?s1 (uuid (users ?s1 ! j)) = Some e
             \<and> rawOf q (users ?s1) j = lastRawBytes e"
    using Cons.prems step by (simp add: worker_step_uuid worker_step_rawOf)
  then show ?case using Cons.IH step by simp
qed

section \<open>Loading the user store\<close>

lemma assignDefaults_Cons:
  "assignDefaults m (u # us) =
     (defaulted m u # fst (assignDefaults (nextMax m u) us),
      lacksDefaults u \<or> snd (assignDefaults (nextMax m u) us))"
  by (auto simp: Let_def defaulted_def nextMax_def lacksDefaults_def keyDefault_def
           split: prod.splits)

lemma assignDefaults_length [simp]: "length (fst (assignDefaults m us)) = length us"
  by (induction us arbitrary: m) (simp_all add: assignDefaults_Cons del: assignDefaults.simps(2))

lemma assignDefaults_needPersist:
  "snd (assignDefaults m us) = list_ex lacksDefaults us"
  by (induction us arbitrary: m) (simp_all add: assignDefaults_Cons del: assignDefaults.simps(2))

lemma defaulted_idle: "\<not> lacksDefaults u \<Longrightarrow> defaulted m u = u"
  by (simp add: defaulted_def lacksDefaults_def keyDefault_def)

lemma assignDefaults_idle:
  "\<not> snd (assignDefaults m us) \<Longrightarrow> fst (assignDefaults m us) = us"
  by (induction us arbitrary: m)
     (simp_all add: assignDefaults_Cons defaulted_idle del: assignDefaults.simps(2))

lemma assignDefaults_nth:
  "j < length us \<Longrightarrow> \<exists>m'. fst (assignDefaults m us) ! j = defaulted m' (us ! j)"
proof (induction us arbitrary: m j)
  case Nil
  then show ?case by simp
next
  case (Cons u us)
  show ?case
  proof (cases j)
    case 0
    then show ?thesis by (auto simp: assignDefaults_Cons simp del: assignDefaults.simps(2))
  next
    case (Suc j')
    then show ?thesis using Cons.prems Cons.IH [of j' "nextMax m u"]
      by (simp add: assignDefaults_Cons del: assignDefaults.simps(2))
  qed
qed

lemma defaulted_fields [simp]:
  "uuid (defaulted m u) = uuid u" "statKeyOf (defaulted m u) = statKeyOf u"
  "enabled (defaulted m u) = enabled u" "quota (defaulted m u) = quota u"
  "expiry (defaulted m u) = expiry u" "username (defaulted m u) = username u"
  "displayName (defaulted m u) = displayName u"
  "usageAccumBytes (defaulted m u) = usageAccumBytes u"
  "userLastRawBytes (defaulted m u) = userLastRawBytes u"
  by (simp_all add: defaulted_def statKeyOf_def keyDefault_def js_or_def)

lemma defaulted_id_Some: "user_id (defaulted m u) \<noteq> None"
  by (simp add: defaulted_def)

lemma defaulted_twice: "defaulted m' (defaulted m u) = defaulted m u"
  by (simp add: defaulted_def keyDefault_def js_or_def)

lemma nextMax_defaulted: "nextMax m' (defaulted m u) = m'"
  by (simp add: nextMax_def defaulted_def)

lemma assignDefaults_twice:
  "fst (assignDefaults m' (fst (assignDefaults m us))) = fst (assignDefaults m us)"
  by (induction us arbitrary: m m')
     (simp_all add: assignDefaults_Cons defaulted_twice nextMax_defaulted del: assignDefaults.simps(2))

lemma lacksDefaults_defaulted: "lacksDefaults (defaulted m u) \<Longrightarrow> lacksDefaults u"
  by (auto simp: lacksDefaults_def defaulted_def keyDefault_def split: if_splits)

lemma assignDefaults_needPersist_twice:
  "snd (assignDefaults m' (fst (assignDefaults m us))) \<Longrightarrow> snd (assignDefaults m us)"
  by (induction us arbitrary: m m')
     (auto simp: assignDefaults_Cons nextMax_defaulted dest: lacksDefaults_defaulted
           simp del: assignDefaults.simps(2))

text \<open>Identifiers after loading.\<close>

lemma fold_max_ge: "m0 \<le> fold (\<lambda>u m. case user_id u of Some i \<Rightarrow> max m i | None \<Rightarrow> m) us m0"
proof (induction us arbitrary: m0)
  case Nil
  then show ?case by simp
next
  case (Cons u us)
  show ?case
  proof (cases "user_id u")
    case None
    then show ?thesis using Cons.IH [of m0] by simp
  next
    case (Some i)
    then show ?thesis using Cons.IH [of "max m0 i"] by simp
  qed
qed

lemma fold_max_bound:
  "u \<in> set us \<Longrightarrow> user_id u = Some i \<Longrightarrow>
   i \<le> fold (\<lambda>u m. case user_id u of Some i \<Rightarrow> max m i | None \<Rightarrow> m) us m0"
proof (induction us arbitrary: m0)
  case Nil
  then show ?case by simp
next
  case (Cons v us)
  show ?case
  proof (cases "u = v")
    case True
    then show ?thesis using Cons.prems(2) fold_max_ge [of "max m0 i" us] by simp
  next
    case False
    then have "u \<in> set us" using Cons.prems(1) by simp
    then show ?thesis using Cons.IH Cons.prems(2) by simp
  qed
qed

lemma maxIdOf_bound: "u \<in> set us \<Longrightarrow> user_id u = Some i \<Longrightarrow> i \<le> maxIdOf us"
  unfolding maxIdOf_def by (rule fold_max_bound)

lemma assignDefaults_ids:
  assumes "\<forall>u\<in>set us. \<forall>i. user_id u = Some i \<longrightarrow> i \<le> m"
    and "v \<in> set (fst (assignDefaults m us))"
  shows "\<exists>i. user_id v = Some i \<and> (m < i \<or> Some i \<in> user_id ` set us)"
  using assms
proof (induction us arbitrary: m)
  case Nil
  then show ?case by simp
next
  case (Cons u us)
  have bound: "\<forall>x\<in>set us. \<forall>i. user_id x = Some i \<longrightarrow> i \<le> nextMax m u"
    using Cons.prems(1) by (fastforce simp: nextMax_def)
  from Cons.prems(2) consider "v = defaulted m u" | "v \<in> set (fst (assignDefaults (nextMax m u) us))"
    by (auto simp: assignDefaults_Cons simp del: assignDefaults.simps(2))
  then show ?case
  proof cases
    case 1
    then show ?thesis by (cases "user_id u") (auto simp: defaulted_def)
  next
    case 2
    from Cons.IH [OF bound 2] obtain i where
      "user_id v = Some i" "nextMax m u < i \<or> Some i \<in> user_id ` set us" by blast
    then show ?thesis by (auto simp: nextMax_def split: if_splits)
  qed
qed

lemma in_map_filter: "x \<in> set xs \<Longrightarrow> f x = Some k \<Longrightarrow> k \<in> set (List.map_filter f xs)"
  by (induction xs) (auto simp: map_filter_simps split: option.splits)

lemma assignDefaults_distinct:
  assumes "\<forall>u\<in>set us. \<forall>i. user_id u = Some i \<longrightarrow> i \<le> m"
    and "distinct (List.map_filter user_id us)"
  shows "distinct (map user_id (fst (assignDefaults m us)))"
  using assms
proof (induction us arbitrary: m)
  case Nil
  then show ?case by simp
next
  case (Cons u us)
  have bound: "\<forall>x\<in>set us. \<forall>i. user_id x = Some i \<longrightarrow> i \<le> nextMax m u"
    using Cons.prems(1) by (fastforce simp: nextMax_def)
  have d: "distinct (List.map_filter user_id us)"
    using Cons.prems(2) by (cases "user_id u") (simp_all add: map_filter_simps)
  have rest: "distinct (map user_id (fst (assignDefaults (nextMax m u) us)))"
    by (rule Cons.IH [OF bound d])
  have "user_id (defaulted m u) \<notin> user_id ` set (fst (assignDefaults (nextMax m u) us))"
  proof
    assume "user_id (defaulted m u) \<in> user_id ` set (fst (assignDefaults (nextMax m u) us))"
    then obtain v where v: "v \<in> set (fst (assignDefaults (nextMax m u) us))"
      "user_id v = user_id (defaulted m u)" by auto
    from assignDefaults_ids [OF bound v(1)] obtain i where
      i: "user_id v = Some i" "nextMax m u < i \<or> Some i \<in> user_id ` set us" by blast
    show False
    proof (cases "user_id u")
      case None
      then have "i = m + 1" using v(2) i(1) by (simp add: defaulted_def)
      moreover have "nextMax m u = m + 1" using None by (simp add: nextMax_def)
      ultimately have "Some (m + 1) \<in> user_id ` set us" using i(2) by simp
      then obtain x where "x \<in> set us" "user_id x = Some (m + 1)" by force
      then show False using Cons.prems(1) by fastforce
    next
      case (Some k)
      then have ik: "i = k" using v(2) i(1) by (simp add: defaulted_def)
      have "k \<le> m" using Cons.prems(1) Some by simp
      moreover have "nextMax m u = m" using Some by (simp add: nextMax_def)
      ultimately have "Some k \<in> user_id ` set us" using i(2) ik by simp
      then obtain x where "x \<in> set us" "user_id x = Some k" by force
      then have "k \<in> set (List.map_filter user_id us)"
        by (rule in_map_filter)
      then show False using Cons.prems(2) Some by (simp add: map_filter_simps)
    qed
  qed
  then show ?case using rest by (simp add: assignDefaults_Cons del: assignDefaults.simps(2))
qed

lemma baseLoadUsers_eq:
  "baseLoadUsers w =
     (case usersFile w of
        None \<Rightarrow> Inl ReadError
      | Some us \<Rightarrow>
          if list_ex lacksDefaults us
          then (if usersWritable w
                then Inr (loaded us, w\<lparr>usersFile := Some (loaded us),
                                         writeLog := USERS_FILE # writeLog w\<rparr>)
                else Inl WriteError)
          else Inr (us, w))"
proof (cases "usersFile w")
  case None
  then show ?thesis by (simp add: baseLoadUsers_def readUsers_def)
next
  case (Some us)
  have np: "snd (assignDefaults (maxIdOf us) us) = list_ex lacksDefaults us"
    by (rule assignDefaults_needPersist)
  show ?thesis
  proof (cases "list_ex lacksDefaults us")
    case True
    then show ?thesis using Some np
      by (simp add: baseLoadUsers_def readUsers_def writeUsers_def loaded_def case_prod_beta)
  next
    case False
    then have "fst (assignDefaults (maxIdOf us) us) = us"
      using np assignDefaults_idle by simp
    then show ?thesis using Some np False
      by (simp add: baseLoadUsers_def readUsers_def case_prod_beta)
  qed
qed

lemma loaded_idle: "\<not> list_ex lacksDefaults us \<Longrightarrow> loaded us = us"
  by (simp add: loaded_def assignDefaults_idle assignDefaults_needPersist)

lemma loaded_twice: "loaded (loaded us) = loaded us"
  by (simp add: loaded_def assignDefaults_twice)

lemma lacks_loaded: "list_ex lacksDefaults (loaded us) \<Longrightarrow> list_ex lacksDefaults us"
  using assignDefaults_needPersist_twice [of "maxIdOf (loaded us)" "maxIdOf us" us]
  by (simp add: loaded_def assignDefaults_needPersist)

lemma loaded_length [simp]: "length (loaded us) = length us"
  by (simp add: loaded_def)

lemma loaded_nth: "j < length us \<Longrightarrow> \<exists>m. loaded us ! j = defaulted m (us ! j)"
  unfolding loaded_def by (rule assignDefaults_nth)

lemma loaded_distinct:
  "distinct (List.map_filter user_id us) \<Longrightarrow> distinct (map user_id (loaded us))"
  unfolding loaded_def by (rule assignDefaults_distinct) (auto intro: maxIdOf_bound)

text \<open>After a successful load the file holds exactly the list that was returned.\<close>

lemma baseLoadUsers_ok:
  assumes "usersFile w = Some us" and "usersWritable w \<or> \<not> list_ex lacksDefaults us"
  shows "baseLoadUsers w =
           Inr (loaded us,
                w\<lparr>usersFile := Some (loaded us),
                   writeLog := (if list_ex lacksDefaults us then USERS_FILE # writeLog w
                                else writeLog w)\<rparr>)"
  using assms by (auto simp: baseLoadUsers_eq loaded_idle)

section \<open>The cycle as a function of the state\<close>

lemma accumulateUsageAsync_eq:
  "accumulateUsageAsync q sched us w =
     (users (accState q sched us w),
      if storeChanged (accState q sched us w) \<and> usageWritable w
      then w\<lparr>usageFile := Some (store (accState q sched us w)),
              writeLog := USAGE_FILE # writeLog w\<rparr>
      else w)"
  by (simp add: accumulateUsageAsync_def accState_def Let_def writeUsage_def)

lemma setEnabled_idle: "\<not> snd (setEnabled f u) \<Longrightarrow> fst (setEnabled f u) = u"
  by (auto simp: setEnabled_def split: option.splits flag.splits if_splits)

lemma setEnabled_all_idle:
  "\<not> list_ex snd (map (setEnabled f) us) \<Longrightarrow> map fst (map (setEnabled f) us) = us"
  by (induction us) (simp_all add: setEnabled_idle)

lemma flags_res:
  "map fst (map (setEnabled f) us) = map (\<lambda>u. fst (setEnabled f u)) us"
  "list_ex snd (map (setEnabled f) us) = list_ex (\<lambda>u. snd (setEnabled f u)) us"
  by (induction us) simp_all

lemma flagsOf_idle: "\<not> flagsChanged enr us \<Longrightarrow> flagsOf enr us = us"
  unfolding flagsOf_def flagsChanged_def
  by (induction us) (simp_all add: setEnabled_idle)

lemma persistEnabledFlags_eq:
  assumes "usersFile w = Some us" and "loaded us = us"
    and "list_ex lacksDefaults us \<longrightarrow> usersWritable w"
  shows "persistEnabledFlags enr w =
           w\<lparr>usersFile := Some (if usersWritable w then flagsOf enr us else us),
              writeLog := (if flagsChanged enr us \<and> usersWritable w then [USERS_FILE] else [])
                          @ (if list_ex lacksDefaults us then [USERS_FILE] else [])
                          @ writeLog w\<rparr>"
proof (cases "list_ex lacksDefaults us")
  case True
  then have wr: "usersWritable w" using assms(3) by simp
  have load: "baseLoadUsers w =
      Inr (us, w\<lparr>usersFile := Some us, writeLog := USERS_FILE # writeLog w\<rparr>)"
    using assms(1,2) True wr by (simp add: baseLoadUsers_eq)
  show ?thesis
    using True wr assms(1)
    by (simp add: persistEnabledFlags_def load Let_def writeUsers_def flags_res flagsOf_def
          flagsChanged_def flagsOf_idle [unfolded flagsOf_def flagsChanged_def])
next
  case False
  have load: "baseLoadUsers w = Inr (us, w)"
    using assms(1) False by (simp add: baseLoadUsers_eq)
  show ?thesis
    using False assms(1)
    by (simp add: persistEnabledFlags_def load Let_def writeUsers_def flags_res flagsOf_def
          flagsChanged_def flagsOf_idle [unfolded flagsOf_def flagsChanged_def])
qed

lemma accState_cong:
  "usageFile w' = usageFile w \<Longrightarrow> accState q sched us w' = accState q sched us w"
  by (simp add: accState_def readUsageOrEmpty_def readUsage_def)

lemma aggregate_busy: "isAggregating w \<Longrightarrow> aggregate now stamp pd q sched w = w"
  by (simp add: aggregate_def aggregate_enter_def)

lemma aggregate_abort:
  assumes "\<not> isAggregating w"
    and "usersFile w = None \<or> (\<exists>us. usersFile w = Some us \<and> list_ex lacksDefaults us \<and> \<not> usersWritable w)"
  shows "aggregate now stamp pd q sched w = w"
proof -
  have "baseLoadUsers (w\<lparr>isAggregating := True\<rparr>) = Inl ReadError
        \<or> baseLoadUsers (w\<lparr>isAggregating := True\<rparr>) = Inl WriteError"
    using assms(2) by (auto simp: baseLoadUsers_eq)
  then show ?thesis using assms(1)
    by (auto simp: aggregate_def aggregate_enter_def aggregate_run_def aggregate_try_def)
qed

lemma aggregate_ok:
  assumes "\<not> isAggregating w" and "usersFile w = Some us"
    and "usersWritable w \<or> \<not> list_ex lacksDefaults us"
  shows "aggregate now stamp pd q sched w =
     w\<lparr>usersFile := Some (if usersWritable w
                          then flagsOf (snapshotOf now pd q sched us w) (loaded us)
                          else loaded us),
        usageFile := (if storeChanged (accState q sched (loaded us) w) \<and> usageWritable w
                      then Some (store (accState q sched (loaded us) w)) else usageFile w),
        writeLog := (if flagsChanged (snapshotOf now pd q sched us w) (loaded us) \<and> usersWritable w
                     then [USERS_FILE] else [])
                    @ (if list_ex lacksDefaults (loaded us) then [USERS_FILE] else [])
                    @ (if storeChanged (accState q sched (loaded us) w) \<and> usageWritable w
                       then [USAGE_FILE] else [])
                    @ (if list_ex lacksDefaults us then [USERS_FILE] else [])
                    @ writeLog w,
        cachedEnriched := snapshotOf now pd q sched us w,
        cacheStamp := stamp,
        isAggregating := False\<rparr>"
proof -
  let ?w0 = "w\<lparr>isAggregating := True\<rparr>"
  let ?L1 = "(if list_ex lacksDefaults us then USERS_FILE # writeLog w else writeLog w)"
  let ?w1 = "?w0\<lparr>usersFile := Some (loaded us), writeLog := ?L1\<rparr>"
  let ?s = "accState q sched (loaded us) w"
  let ?enr = "snapshotOf now pd q sched us w"
  have load: "baseLoadUsers ?w0 = Inr (loaded us, ?w1)"
    using baseLoadUsers_ok [of ?w0 us] assms(2,3) by simp
  have st: "accState q sched (loaded us) ?w1 = ?s" by (rule accState_cong) simp
  let ?w2 = "(if storeChanged ?s \<and> usageWritable w
              then ?w1\<lparr>usageFile := Some (store ?s), writeLog := USAGE_FILE # writeLog ?w1\<rparr>
              else ?w1)"
  have acc: "accumulateUsageAsync q sched (loaded us) ?w1 = (users ?s, ?w2)"
    by (simp add: accumulateUsageAsync_eq st)
  have lacks: "list_ex lacksDefaults (loaded us) \<longrightarrow> usersWritable ?w2"
    using assms(3) lacks_loaded [of us] by auto
  have file2: "usersFile ?w2 = Some (loaded us)" by simp
  have pers: "persistEnabledFlags ?enr ?w2 =
           ?w2\<lparr>usersFile := Some (if usersWritable ?w2 then flagsOf ?enr (loaded us) else loaded us),
              writeLog := (if flagsChanged ?enr (loaded us) \<and> usersWritable ?w2 then [USERS_FILE] else [])
                          @ (if list_ex lacksDefaults (loaded us) then [USERS_FILE] else [])
                          @ writeLog ?w2\<rparr>"
    by (rule persistEnabledFlags_eq [OF file2 loaded_twice lacks])
  have agg: "aggregate now stamp pd q sched w =
          (persistEnabledFlags ?enr ?w2)\<lparr>cachedEnriched := ?enr, cacheStamp := stamp,
                                          isAggregating := False\<rparr>"
    using assms(1)
    by (simp add: aggregate_def aggregate_enter_def aggregate_run_def aggregate_try_def load acc
          snapshotOf_def Let_def del: fun_upd_apply)
  consider "storeChanged ?s" "usageWritable w" | "\<not> storeChanged ?s" | "\<not> usageWritable w"
    by blast
  then show ?thesis
    unfolding agg pers by cases simp_all
qed

section \<open>The snapshot and the write-back of the flags\<close>

lemma enrich_fields [simp]:
  "user_id (enrich now pd u) = user_id u" "uuid (enrich now pd u) = uuid u"
  "username (enrich now pd u) = username u" "quota (enrich now pd u) = quota u"
  "expiry (enrich now pd u) = expiry u"
  "usageAccumBytes (enrich now pd u) = usageAccumBytes u"
  "bandwidthUsageRaw (enrich now pd u) = usagePreciseGB u"
  "daysLeft (enrich now pd u) = daysLeftOf now pd u"
  by (simp_all add: enrich_def Let_def user.defs enriched.defs)

lemma enrich_enabled:
  "enabled (enrich now pd u) = Flag (truthy (enabled u) \<and> \<not> breached now pd u)"
  by (cases "enabled u") (auto simp: enrich_def Let_def user.defs enriched.defs truthy_def)

lemma accState_strip: "map strip (users (accState q sched us w)) = map strip us"
  by (simp add: accState_def fold_worker_strip)

lemma accState_length [simp]: "length (users (accState q sched us w)) = length us"
  by (simp add: accState_def)

lemma accState_nth_strip:
  "j < length us \<Longrightarrow> strip (users (accState q sched us w) ! j) = strip (us ! j)"
  by (rule strip_nth [OF accState_strip])

lemma snapshotOf_length [simp]: "length (snapshotOf now pd q sched us w) = length us"
  by (simp add: snapshotOf_def)

lemma snapshotOf_nth:
  "j < length us \<Longrightarrow>
   snapshotOf now pd q sched us w ! j = enrich now pd (users (accState q sched (loaded us) w) ! j)"
  by (simp add: snapshotOf_def)

lemma loaded_nth_fields:
  assumes "j < length us"
  shows "uuid (loaded us ! j) = uuid (us ! j)" "statKeyOf (loaded us ! j) = statKeyOf (us ! j)"
    "enabled (loaded us ! j) = enabled (us ! j)" "quota (loaded us ! j) = quota (us ! j)"
    "expiry (loaded us ! j) = expiry (us ! j)"
    "usageAccumBytes (loaded us ! j) = usageAccumBytes (us ! j)"
  using loaded_nth [OF assms] by auto

lemma cycle_user_fields:
  assumes "j < length us"
  shows "uuid (users (accState q sched (loaded us) w) ! j) = uuid (us ! j)"
    "statKeyOf (users (accState q sched (loaded us) w) ! j) = statKeyOf (us ! j)"
    "enabled (users (accState q sched (loaded us) w) ! j) = enabled (us ! j)"
    "quota (users (accState q sched (loaded us) w) ! j) = quota (us ! j)"
    "expiry (users (accState q sched (loaded us) w) ! j) = expiry (us ! j)"
    "user_id (users (accState q sched (loaded us) w) ! j) = user_id (loaded us ! j)"
proof -
  have s: "strip (users (accState q sched (loaded us) w) ! j) = strip (loaded us ! j)"
    using assms by (simp add: accState_nth_strip)
  show "uuid (users (accState q sched (loaded us) w) ! j) = uuid (us ! j)"
    using strip_eq_fields(1) [OF s] loaded_nth_fields(1) [OF assms] by simp
  show "statKeyOf (users (accState q sched (loaded us) w) ! j) = statKeyOf (us ! j)"
    using strip_eq_fields(2) [OF s] loaded_nth_fields(2) [OF assms] by simp
  show "enabled (users (accState q sched (loaded us) w) ! j) = enabled (us ! j)"
    using strip_eq_fields(4) [OF s] loaded_nth_fields(3) [OF assms] by simp
  show "quota (users (accState q sched (loaded us) w) ! j) = quota (us ! j)"
    using strip_eq_fields(5) [OF s] loaded_nth_fields(4) [OF assms] by simp
  show "expiry (users (accState q sched (loaded us) w) ! j) = expiry (us ! j)"
    using strip_eq_fields(6) [OF s] loaded_nth_fields(5) [OF assms] by simp
  show "user_id (users (accState q sched (loaded us) w) ! j) = user_id (loaded us ! j)"
    using strip_eq_fields(3) [OF s] by simp
qed

text \<open>What the write-back does to one record.\<close>

lemma setEnabled_shape: "fst (setEnabled f u) = u\<lparr>enabled := enabled (fst (setEnabled f u))\<rparr>"
  by (auto simp: setEnabled_def split: option.splits flag.splits)

lemma setEnabled_changed: "snd (setEnabled f u) \<Longrightarrow> enabled (fst (setEnabled f u)) \<noteq> enabled u"
  by (auto simp: setEnabled_def split: option.splits flag.splits if_splits)

lemma setEnabled_hit:
  "f (user_id u) = Some (Flag b) \<Longrightarrow> fst (setEnabled f u) = u\<lparr>enabled := Flag b\<rparr>"
  by (auto simp: setEnabled_def)

lemma flagsOf_length [simp]: "length (flagsOf enr us) = length us"
  by (simp add: flagsOf_def)

lemma flagsOf_shape:
  "j < length us \<Longrightarrow> flagsOf enr us ! j = (us ! j)\<lparr>enabled := enabled (flagsOf enr us ! j)\<rparr>"
  using setEnabled_shape [of "enabledById enr" "us ! j"] by (simp add: flagsOf_def)

lemma flagsChanged_some:
  "flagsChanged enr us \<Longrightarrow> \<exists>j<length us. enabled (flagsOf enr us ! j) \<noteq> enabled (us ! j)"
  unfolding flagsChanged_def flagsOf_def list_ex_iff
  by (metis in_set_conv_nth nth_map setEnabled_changed)

lemma enabledById_hit:
  assumes "distinct (map user_id enr)" and "j < length enr"
  shows "enabledById enr (user_id (enr ! j)) = Some (enabled (enr ! j))"
proof -
  let ?xs = "rev (map (\<lambda>u. (user_id u, enabled u)) enr)"
  have "map fst ?xs = rev (map user_id enr)" by (simp add: rev_map comp_def)
  then have d: "distinct (map fst ?xs)" using assms(1) by simp
  have "(user_id (enr ! j), enabled (enr ! j)) \<in> set ?xs" using assms(2) by auto
  then show ?thesis unfolding enabledById_def by (rule map_of_is_SomeI [OF d])
qed

lemma flagsOf_hit:
  assumes "distinct (map user_id enr)" and "length enr = length us" and "j < length us"
    and "user_id (enr ! j) = user_id (us ! j)" and "enabled (enr ! j) = Flag b"
  shows "flagsOf enr us ! j = (us ! j)\<lparr>enabled := Flag b\<rparr>"
proof -
  have "enabledById enr (user_id (us ! j)) = Some (Flag b)"
    using enabledById_hit [OF assms(1), of j] assms(2-5) by simp
  then show ?thesis using assms(3) by (simp add: flagsOf_def setEnabled_hit)
qed

lemma snapshot_ids:
  "map user_id (snapshotOf now pd q sched us w) = map user_id (loaded us)"
  by (rule nth_equalityI) (simp_all add: snapshotOf_nth cycle_user_fields)

lemma daysLeftOf_spec:
  "daysLeftOf now pd u = spec_daysLeft now (expiry u \<noteq> []) (pd (expiry u))"
  by (simp add: daysLeftOf_def spec_daysLeft_def)

lemma breached_spec:
  "breached now pd u =
     spec_breached (quota u) (usagePreciseGB u) (expiry u \<noteq> []) (daysLeftOf now pd u)"
  by (auto simp: breached_def spec_breached_def quotaGB_def le_zero_def split: option.splits)

section \<open>The accumulator through a cycle and through the endpoints\<close>

lemma findUserIndex_Some:
  "findUserIndex n us = Some i \<Longrightarrow> i < length us \<and> username (us ! i) = n"
proof (induction us arbitrary: i)
  case Nil
  then show ?case by simp
next
  case (Cons u us)
  then show ?case by (cases "username u = n") auto
qed

lemma accState_mono:
  assumes "\<forall>i<length us. 0 \<le> rawOf q us i" and "readUsageOrEmpty w k = Some e"
  shows "\<exists>e'. store (accState q sched us w) k = Some e' \<and> accumBytes e \<le> accumBytes e'"
  unfolding accState_def using assms by (intro fold_worker_mono) simp_all

lemma loaded_rawOf: "i < length us \<Longrightarrow> rawOf q (loaded us) i = rawOf q us i"
  by (simp add: rawOf_def loaded_nth_fields)

text \<open>The accumulator file after a cycle, whatever the cycle did.\<close>

lemma aggregate_usageFile_cases:
  "usageFile (aggregate now stamp pd q sched w) = usageFile w
   \<or> (\<exists>us. usersFile w = Some us
         \<and> usageFile (aggregate now stamp pd q sched w)
             = Some (store (accState q sched (loaded us) w)))"
proof (cases "isAggregating w")
  case True
  then show ?thesis by (simp add: aggregate_busy)
next
  case False
  show ?thesis
  proof (cases "usersFile w")
    case None
    then show ?thesis using False by (simp add: aggregate_abort)
  next
    case (Some us)
    show ?thesis
    proof (cases "usersWritable w \<or> \<not> list_ex lacksDefaults us")
      case True
      show ?thesis using Some by (simp add: aggregate_ok [OF False Some True])
    next
      case False
      then show ?thesis using \<open>\<not> isAggregating w\<close> Some by (simp add: aggregate_abort)
    qed
  qed
qed

lemma worker_step_first:
  assumes "\<forall>i<length (users s). 0 \<le> rawOf q (users s) i" and "store s k = None"
  shows "store (worker_step q i s) k = None
         \<or> (\<exists>e'. store (worker_step q i s) k = Some e' \<and> 0 \<le> accumBytes e')"
proof (cases "i < length (users s) \<and> k = uuid (users s ! i)")
  case True
  then have i: "i < length (users s)" and k: "k = uuid (users s ! i)" by simp_all
  have r: "0 \<le> rawOf q (users s) i" using assms(1) i by simp
  have old: "store s (uuid (users s ! i)) = None" using assms(2) k by simp
  have "store (worker_step q i s) (uuid (users s ! i))
          = Some (fst (reconcile None (rawOf q (users s) i)))"
    using worker_step_store_key [OF i, of q] old by simp
  moreover have "accumBytes (fst (reconcile None (rawOf q (users s) i))) = rawOf q (users s) i"
    by (simp add: reconcile_def)
  ultimately show ?thesis using r k by simp
next
  case False
  then have "store (worker_step q i s) k = store s k"
    by (cases "i < length (users s)") (simp_all add: worker_step_store_other worker_step_out_of_range)
  then show ?thesis using assms(2) by simp
qed

lemma fold_worker_first:
  assumes "\<forall>i<length (users s). 0 \<le> rawOf q (users s) i" and "store s k = None"
  shows "store (fold (worker_step q) sched s) k = None
         \<or> (\<exists>e'. store (fold (worker_step q) sched s) k = Some e' \<and> 0 \<le> accumBytes e')"
  using assms
proof (induction sched arbitrary: s)
  case Nil
  then show ?case by simp
next
  case (Cons i sched)
  let ?s1 = "worker_step q i s"
  have raws: "\<forall>j<length (users ?s1). 0 \<le> rawOf q (users ?s1) j"
    using Cons.prems(1) by (simp add: worker_step_rawOf)
  have step: "store ?s1 k = None \<or> (\<exists>e'. store ?s1 k = Some e' \<and> 0 \<le> accumBytes e')"
    by (rule worker_step_first [OF Cons.prems])
  show ?case
  proof (cases "store ?s1 k")
    case None
    show ?thesis unfolding fold_Cons comp_def by (rule Cons.IH [OF raws None])
  next
    case (Some e1)
    then have e1: "0 \<le> accumBytes e1" using step by simp
    obtain e' where e': "store (fold (worker_step q) sched ?s1) k = Some e'"
      "accumBytes e1 \<le> accumBytes e'"
      using fold_worker_mono [OF raws Some] by blast
    have "0 \<le> accumBytes e'" using e'(2) e1 by simp
    then show ?thesis unfolding fold_Cons comp_def using e'(1) by simp
  qed
qed

lemma accState_first:
  assumes "\<forall>i<length us. 0 \<le> rawOf q us i" and "readUsageOrEmpty w k = None"
  shows "store (accState q sched us w) k = None
         \<or> (\<exists>e'. store (accState q sched us w) k = Some e' \<and> 0 \<le> accumBytes e')"
  unfolding accState_def by (rule fold_worker_first) (use assms in simp_all)

lemma enableUser_usageFile: "usageFile (snd (enableUser n w)) = usageFile w"
  by (simp add: enableUser_def readUsers_def writeUsers_def Let_def split: option.splits)

lemma accState_noop:
  assumes "\<forall>i<length us. \<exists>e. readUsageOrEmpty w (uuid (us ! i)) = Some e
             \<and> rawOf q us i = lastRawBytes e"
  shows "store (accState q sched us w) = readUsageOrEmpty w
         \<and> \<not> storeChanged (accState q sched us w)"
  unfolding accState_def
  using fold_worker_noop [of "\<lparr>store = readUsageOrEmpty w, users = us, storeChanged = False\<rparr>" q sched]
    assms by simp

section \<open>Unfolding the model on concrete inputs\<close>

lemmas query_defs = uplink_def statKeyOf_def js_or_def queryRawBytes_def statPrefix_def
  startsWith_def

lemmas model_defs = aggregate_def aggregate_enter_def aggregate_run_def aggregate_try_def
  baseLoadUsers_def readUsers_def writeUsers_def readUsage_def writeUsage_def readUsageOrEmpty_def
  maxIdOf_def accumulateUsageAsync_def worker_step_def reconcile_def queryRawBytes_def
  statKeyOf_def js_or_def statPrefix_def startsWith_def persistEnabledFlags_def enabledById_def
  setEnabled_def enrich_def breached_def quotaGB_def usagePreciseGB_def daysLeftOf_def
  le_zero_def truthy_def Let_def user.defs enriched.defs

lemmas flight_defs = aggregate_begin_def aggregate_finish_def disableUser_def enableUser_def
  resetQuota_def accumulateUsage_def

section \<open>The in-flight flag through the endpoints\<close>

lemma enableUser_flag [simp]: "isAggregating (snd (enableUser n w)) = isAggregating w"
  by (simp add: enableUser_def readUsers_def writeUsers_def Let_def split: option.splits)

lemma resetQuota_flag [simp]: "isAggregating (snd (resetQuota n w)) = isAggregating w"
  by (simp add: resetQuota_def readUsers_def writeUsers_def writeUsage_def Let_def
        split: option.splits)

lemma aggregate_run_flag [simp]: "\<not> isAggregating (aggregate_run now stamp pd q sched w)"
  by (simp add: aggregate_run_def)

section \<open>One user through a cycle that runs to its end\<close>

lemma lacks_some:
  "list_ex lacksDefaults us \<Longrightarrow> \<exists>j<length us. user_id (us ! j) = None \<or> statKey (us ! j) = []"
  unfolding list_ex_iff lacksDefaults_def by (metis in_set_conv_nth)

lemma filter_users_append:
  "length (filter (\<lambda>f. f = USERS_FILE) (a @ b @ c @ d @ l))
     \<noteq> length (filter (\<lambda>f. f = USERS_FILE) l)
   \<Longrightarrow> USERS_FILE \<in> set a \<or> USERS_FILE \<in> set b \<or> USERS_FILE \<in> set c \<or> USERS_FILE \<in> set d"
  by (auto simp: filter_empty_conv)

lemma valid_sched_mem:
  assumes "valid_sched sched n" and "j < n"
  shows "j \<in> set sched"
proof -
  have d: "distinct sched" and l: "length sched = n" and b: "set sched \<subseteq> {..<n}"
    using assms(1) by (auto simp: valid_sched_def list_all_iff)
  have "card (set sched) = n" using d l by (simp add: distinct_card)
  then have "set sched = {..<n}" using b by (simp add: card_subset_eq)
  then show ?thesis using assms(2) by simp
qed

lemma valid_sched_distinct: "valid_sched sched n \<Longrightarrow> distinct sched"
  by (simp add: valid_sched_def)

text \<open>The persisted flag of one user after a cycle that ran to its end.\<close>

lemma cycle_enabled_core:
  assumes "\<not> isAggregating w" and "usersFile w = Some us" and "usersWritable w"
    and "distinct (List.map_filter user_id us)" and "j < length us"
  shows "usersFile (aggregate now stamp pd q sched w)
           = Some (flagsOf (snapshotOf now pd q sched us w) (loaded us))"
    and "cachedEnriched (aggregate now stamp pd q sched w) = snapshotOf now pd q sched us w"
    and "snapshotOf now pd q sched us w ! j
           = enrich now pd (users (accState q sched (loaded us) w) ! j)"
    and "enabled (flagsOf (snapshotOf now pd q sched us w) (loaded us) ! j)
           = Flag (truthy (enabled (us ! j))
                   \<and> \<not> breached now pd (users (accState q sched (loaded us) w) ! j))"
proof -
  let ?w' = "aggregate now stamp pd q sched w"
  let ?enr = "snapshotOf now pd q sched us w"
  let ?u2 = "users (accState q sched (loaded us) w) ! j"
  have ok: "usersWritable w \<or> \<not> list_ex lacksDefaults us" using assms(3) by simp
  show "usersFile ?w' = Some (flagsOf ?enr (loaded us))"
    and "cachedEnriched ?w' = ?enr"
    using assms(3) by (simp_all add: aggregate_ok [OF assms(1,2) ok])
  show snap: "?enr ! j = enrich now pd ?u2" using assms(5) by (simp add: snapshotOf_nth)
  have d: "distinct (map user_id ?enr)"
    using loaded_distinct [OF assms(4)] by (simp add: snapshot_ids)
  have en: "enabled (?enr ! j) = Flag (truthy (enabled ?u2) \<and> \<not> breached now pd ?u2)"
    by (simp add: snap enrich_enabled)
  have idj: "user_id (?enr ! j) = user_id (loaded us ! j)"
    using assms(5) by (simp add: snap cycle_user_fields)
  have "flagsOf ?enr (loaded us) ! j
          = (loaded us ! j)\<lparr>enabled := Flag (truthy (enabled ?u2) \<and> \<not> breached now pd ?u2)\<rparr>"
    using assms(5) by (intro flagsOf_hit [OF d _ _ idj en]) simp_all
  then have "enabled (flagsOf ?enr (loaded us) ! j)
          = Flag (truthy (enabled ?u2) \<and> \<not> breached now pd ?u2)" by simp
  then show "enabled (flagsOf ?enr (loaded us) ! j)
           = Flag (truthy (enabled (us ! j)) \<and> \<not> breached now pd ?u2)"
    using assms(5) by (simp add: cycle_user_fields)
qed

text \<open>The accumulator of one user after the worker pool has run, for distinct keys.\<close>

lemma accState_entry:
  assumes "valid_sched sched (length us)" and "distinct (map uuid us)" and "j < length us"
  shows "store (accState q sched us w) (uuid (us ! j))
           = Some (fst (reconcile (readUsageOrEmpty w (uuid (us ! j))) (rawOf q us j)))"
    and "usageAccumBytes (users (accState q sched us w) ! j)
           = Some (accumBytes (fst (reconcile (readUsageOrEmpty w (uuid (us ! j))) (rawOf q us j))))"
proof -
  let ?s0 = "\<lparr>store = readUsageOrEmpty w, users = us, storeChanged = False\<rparr>"
  have "store (fold (worker_step q) sched ?s0) (uuid (users ?s0 ! j)) =
           Some (fst (reconcile (store ?s0 (uuid (users ?s0 ! j))) (rawOf q (users ?s0) j)))
         \<and> usageAccumBytes (users (fold (worker_step q) sched ?s0) ! j) =
           Some (accumBytes (fst (reconcile (store ?s0 (uuid (users ?s0 ! j))) (rawOf q (users ?s0) j))))"
    by (rule fold_worker_store_key)
       (use assms valid_sched_distinct valid_sched_mem in simp_all)
  then show "store (accState q sched us w) (uuid (us ! j))
           = Some (fst (reconcile (readUsageOrEmpty w (uuid (us ! j))) (rawOf q us j)))"
    and "usageAccumBytes (users (accState q sched us w) ! j)
           = Some (accumBytes (fst (reconcile (readUsageOrEmpty w (uuid (us ! j))) (rawOf q us j))))"
    by (simp_all add: accState_def)
qed

lemma loaded_uuids: "map uuid (loaded us) = map uuid us"
  by (rule nth_equalityI) (simp_all add: loaded_nth_fields)

lemma accState_unchanged:
  "\<not> storeChanged (accState q sched us w) \<Longrightarrow> store (accState q sched us w) = readUsageOrEmpty w"
  unfolding accState_def
  using fold_worker_store_unchanged
    [of q sched "\<lparr>store = readUsageOrEmpty w, users = us, storeChanged = False\<rparr>"]
  by simp

text \<open>One user's persisted entry and snapshot after a cycle that ran to its end.\<close>

lemma cycle_entry:
  assumes "\<not> isAggregating w" and "usersFile w = Some us"
    and "usersWritable w \<or> \<not> list_ex lacksDefaults us"
    and "valid_sched sched (length us)" and "distinct (map uuid us)" and "j < length us"
  shows "usageAccumBytes (cachedEnriched (aggregate now stamp pd q sched w) ! j)
           = Some (accumBytes (fst (reconcile (readUsageOrEmpty w (uuid (us ! j)))
                                      (queryRawBytes (statKeyOf (us ! j)) (q j)))))"
    and "usageWritable w \<Longrightarrow>
         readUsageOrEmpty (aggregate now stamp pd q sched w) (uuid (us ! j))
           = Some (fst (reconcile (readUsageOrEmpty w (uuid (us ! j)))
                          (queryRawBytes (statKeyOf (us ! j)) (q j))))"
proof -
  let ?w' = "aggregate now stamp pd q sched w"
  let ?s = "accState q sched (loaded us) w"
  let ?new = "fst (reconcile (readUsageOrEmpty w (uuid (us ! j)))
                          (queryRawBytes (statKeyOf (us ! j)) (q j)))"
  have vs: "valid_sched sched (length (loaded us))" using assms(4) by simp
  have du: "distinct (map uuid (loaded us))" using assms(5) by (simp add: loaded_uuids)
  have jl: "j < length (loaded us)" using assms(6) by simp
  have raw: "rawOf q (loaded us) j = queryRawBytes (statKeyOf (us ! j)) (q j)"
    using assms(6) by (simp add: loaded_rawOf) (simp add: rawOf_def)
  have key: "uuid (loaded us ! j) = uuid (us ! j)" using assms(6) by (simp add: loaded_nth_fields)
  have st: "store ?s (uuid (us ! j)) = Some ?new"
    using accState_entry(1) [OF vs du jl, of q w] by (simp add: raw key)
  have usr: "usageAccumBytes (users ?s ! j) = Some (accumBytes ?new)"
    using accState_entry(2) [OF vs du jl, of q w] by (simp add: raw key)
  show "usageAccumBytes (cachedEnriched ?w' ! j) = Some (accumBytes ?new)"
    using usr assms(6) by (simp add: aggregate_ok [OF assms(1,2,3)] snapshotOf_nth)
  show "readUsageOrEmpty ?w' (uuid (us ! j)) = Some ?new" if wr: "usageWritable w"
  proof (cases "storeChanged ?s")
    case True
    then show ?thesis using wr st
      by (simp add: aggregate_ok [OF assms(1,2,3)] readUsageOrEmpty_def readUsage_def)
  next
    case False
    then have "store ?s = readUsageOrEmpty w" by (rule accState_unchanged)
    then have "readUsageOrEmpty w (uuid (us ! j)) = Some ?new" using st by simp
    moreover have "usageFile ?w' = usageFile w"
      using False by (simp add: aggregate_ok [OF assms(1,2,3)])
    ultimately show ?thesis by (simp add: readUsageOrEmpty_def readUsage_def)
  qed
qed

section \<open>The enable endpoint\<close>

lemma accumulateUsage_length [simp]: "length (accumulateUsage us w) = length us"
  by (simp add: accumulateUsage_def)

lemma accumulateUsage_nth_strip:
  "j < length us \<Longrightarrow> strip (accumulateUsage us w ! j) = strip (us ! j)"
  by (simp add: accumulateUsage_def strip_def split: option.splits)

lemma enableUser_ok:
  assumes "usersFile w = Some us" and "usersWritable w" and "findUserIndex n us = Some j"
  shows "enableUser n w =
          (Ok200, w\<lparr>usersFile := Some ((accumulateUsage us w)
                                        [j := (accumulateUsage us w ! j)\<lparr>enabled := Flag True\<rparr>]),
                     writeLog := USERS_FILE # writeLog w\<rparr>)"
  using assms by (simp add: enableUser_def readUsers_def writeUsers_def Let_def)

lemma map_filter_cong_ids:
  "map user_id xs = map user_id ys \<Longrightarrow> List.map_filter user_id xs = List.map_filter user_id ys"
proof (induction xs arbitrary: ys)
  case Nil
  then show ?case by simp
next
  case (Cons x xs)
  then obtain y ys' where ys: "ys = y # ys'" by (cases ys) auto
  then have "user_id x = user_id y" "map user_id xs = map user_id ys'" using Cons.prems by simp_all
  then show ?case using Cons.IH [of ys'] ys by (simp add: map_filter_simps split: option.splits)
qed

lemma accumulateUsage_fields:
  assumes "i < length us"
  shows "user_id (accumulateUsage us w ! i) = user_id (us ! i)"
    "uuid (accumulateUsage us w ! i) = uuid (us ! i)"
    "statKeyOf (accumulateUsage us w ! i) = statKeyOf (us ! i)"
    "quota (accumulateUsage us w ! i) = quota (us ! i)"
  using strip_eq_fields [OF accumulateUsage_nth_strip [OF assms, of w]] by simp_all

lemma statKeyOf_enabled [simp]: "statKeyOf (u\<lparr>enabled := b\<rparr>) = statKeyOf u"
  by (simp add: statKeyOf_def)

lemma enabled_list_fields:
  assumes "i < length us"
  shows "user_id ((accumulateUsage us w)[j := (accumulateUsage us w ! j)\<lparr>enabled := b\<rparr>] ! i)
           = user_id (us ! i)"
    "uuid ((accumulateUsage us w)[j := (accumulateUsage us w ! j)\<lparr>enabled := b\<rparr>] ! i)
           = uuid (us ! i)"
    "statKeyOf ((accumulateUsage us w)[j := (accumulateUsage us w ! j)\<lparr>enabled := b\<rparr>] ! i)
           = statKeyOf (us ! i)"
    "quota ((accumulateUsage us w)[j := (accumulateUsage us w ! j)\<lparr>enabled := b\<rparr>] ! i)
           = quota (us ! i)"
  using assms by (cases "i = j"; simp add: accumulateUsage_fields)+

lemma accState_user_mono:
  assumes "\<forall>i<length us. 0 \<le> rawOf q us i" and "j \<in> set sched" and "j < length us"
    and "readUsageOrEmpty w (uuid (us ! j)) = Some e"
  shows "\<exists>a. usageAccumBytes (users (accState q sched us w) ! j) = Some a \<and> accumBytes e \<le> a"
  unfolding accState_def
  by (rule fold_worker_user_mono) (use assms in simp_all)

lemma snapshot_uuids: "map uuid (snapshotOf now pd q sched us w) = map uuid us"
  by (rule nth_equalityI) (simp_all add: snapshotOf_nth cycle_user_fields)

lemma reconcile_zero:
  "0 \<le> lastRawBytes e \<Longrightarrow> accumBytes (fst (reconcile (Some e) 0)) = accumBytes e"
  "accumBytes (fst (reconcile None 0)) = 0"
  by (simp_all add: reconcile_def)

lemma flagsOf_static:
  "map uuid (flagsOf enr us) = map uuid us" "map statKeyOf (flagsOf enr us) = map statKeyOf us"
proof -
  have "\<And>j. j < length us \<Longrightarrow> uuid (flagsOf enr us ! j) = uuid (us ! j)
                             \<and> statKeyOf (flagsOf enr us ! j) = statKeyOf (us ! j)"
  proof -
    fix j assume j: "j < length us"
    have "flagsOf enr us ! j = (us ! j)\<lparr>enabled := enabled (flagsOf enr us ! j)\<rparr>"
      by (rule flagsOf_shape [OF j])
    then show "uuid (flagsOf enr us ! j) = uuid (us ! j)
                \<and> statKeyOf (flagsOf enr us ! j) = statKeyOf (us ! j)"
      by (metis statKeyOf_enabled user.select_convs(3) user.surjective user.update_convs(8))
  qed
  then show "map uuid (flagsOf enr us) = map uuid us"
    "map statKeyOf (flagsOf enr us) = map statKeyOf us"
    by (auto intro!: nth_equalityI)
qed

section \<open>Successive cycles\<close>

lemma observe_simps [simp]:
  "observe [] old = old"
  "observe (r # rs) old = observe rs (Some (fst (reconcile old r)))"
  by (simp_all add: observe_def)

lemma observe_nondecreasing:
  "sorted (r # rs) \<Longrightarrow>
   observe rs (Some \<lparr>accumBytes = r, lastRawBytes = r\<rparr>)
     = Some \<lparr>accumBytes = last (r # rs), lastRawBytes = last (r # rs)\<rparr>"
proof (induction rs arbitrary: r)
  case Nil
  then show ?case by simp
next
  case (Cons r' rs)
  have le: "r \<le> r'" and srt: "sorted (r' # rs)" using Cons.prems by simp_all
  have "fst (reconcile (Some \<lparr>accumBytes = r, lastRawBytes = r\<rparr>) r')
          = \<lparr>accumBytes = r', lastRawBytes = r'\<rparr>"
    using le by (simp add: reconcile_Some)
  then show ?case using Cons.IH [OF srt] by simp
qed

lemma observe_first:
  assumes "rs \<noteq> []" and "sorted rs"
  shows "observe rs None = Some \<lparr>accumBytes = last rs, lastRawBytes = last rs\<rparr>"
proof -
  obtain r rs' where rs: "rs = r # rs'" using assms(1) by (cases rs) auto
  have "fst (reconcile None r) = \<lparr>accumBytes = r, lastRawBytes = r\<rparr>"
    by (simp add: reconcile_def)
  then show ?thesis using observe_nondecreasing [of r rs'] assms(2) rs by simp
qed

lemma steady_step:
  assumes "steady us0 w"
  shows "steady us0 (aggregate now stamp pd q sched w)"
proof -
  obtain us where us: "usersFile w = Some us" "map uuid us = map uuid us0"
    "map statKeyOf us = map statKeyOf us0"
    using assms by (auto simp: steady_def split: option.splits)
  have f: "\<not> isAggregating w" "usersWritable w" "usageWritable w"
    using assms by (simp_all add: steady_def)
  have ok: "usersWritable w \<or> \<not> list_ex lacksDefaults us" using f(2) by simp
  have sk: "map statKeyOf (loaded us) = map statKeyOf us"
    by (rule nth_equalityI) (simp_all add: loaded_nth_fields)
  show ?thesis
    using f us sk
    by (simp add: steady_def aggregate_ok [OF f(1) us(1) ok] flagsOf_static loaded_uuids)
qed

lemma steady_entry:
  assumes "steady us0 w" and "valid_sched sched (length us0)" and "distinct (map uuid us0)"
    and "j < length us0"
  shows "readUsageOrEmpty (aggregate now stamp pd q sched w) (uuid (us0 ! j))
           = Some (fst (reconcile (readUsageOrEmpty w (uuid (us0 ! j)))
                          (queryRawBytes (statKeyOf (us0 ! j)) (q j))))"
proof -
  obtain us where us: "usersFile w = Some us" "map uuid us = map uuid us0"
    "map statKeyOf us = map statKeyOf us0"
    using assms(1) by (auto simp: steady_def split: option.splits)
  have f: "\<not> isAggregating w" "usersWritable w" "usageWritable w"
    using assms(1) by (simp_all add: steady_def)
  have ok: "usersWritable w \<or> \<not> list_ex lacksDefaults us" using f(2) by simp
  have len: "length us = length us0" using us(2) by (metis length_map)
  have uj: "uuid (us ! j) = uuid (us0 ! j)"
    using us(2) assms(4) len by (metis nth_map)
  have sj: "statKeyOf (us ! j) = statKeyOf (us0 ! j)"
    using us(3) assms(4) len by (metis nth_map)
  have "readUsageOrEmpty (aggregate now stamp pd q sched w) (uuid (us ! j))
           = Some (fst (reconcile (readUsageOrEmpty w (uuid (us ! j)))
                          (queryRawBytes (statKeyOf (us ! j)) (q j))))"
    by (rule cycle_entry(2) [OF f(1) us(1) ok _ _ _ f(3)])
       (use assms(2,3,4) len us(2) in simp_all)
  then show ?thesis by (simp add: uj sj)
qed

lemma run_cycles_entry:
  assumes "steady us0 w" and "\<forall>c\<in>set cs. valid_sched (cycle_sched c) (length us0)"
    and "distinct (map uuid us0)" and "j < length us0"
  shows "readUsageOrEmpty (run_cycles pd cs w) (uuid (us0 ! j))
           = observe (map (cycle_raw (us0 ! j) j) cs) (readUsageOrEmpty w (uuid (us0 ! j)))"
  using assms(1,2)
proof (induction cs arbitrary: w)
  case Nil
  then show ?case by simp
next
  case (Cons c cs)
  obtain now stamp q sched where c: "c = (now, stamp, q, sched)" by (cases c) auto
  let ?w1 = "aggregate now stamp pd q sched w"
  have vs: "valid_sched sched (length us0)" using Cons.prems(2) c by (simp add: cycle_sched_def)
  have s1: "steady us0 ?w1" by (rule steady_step [OF Cons.prems(1)])
  have e1: "readUsageOrEmpty ?w1 (uuid (us0 ! j))
           = Some (fst (reconcile (readUsageOrEmpty w (uuid (us0 ! j)))
                          (queryRawBytes (statKeyOf (us0 ! j)) (q j))))"
    by (rule steady_entry [OF Cons.prems(1) vs assms(3,4)])
  have rest: "\<forall>c\<in>set cs. valid_sched (cycle_sched c) (length us0)" using Cons.prems(2) by simp
  show ?case using Cons.IH [OF s1 rest] e1 c by (simp add: cycle_raw_def)
qed

section \<open>Cycles in flight\<close>

lemma disableUser_flag [simp]: "isAggregating (snd (disableUser n w)) = isAggregating w"
  by (simp add: disableUser_def readUsers_def writeUsers_def Let_def split: option.splits)

lemma baseLoadUsers_flag:
  "baseLoadUsers w = Inr (us, w1) \<Longrightarrow> isAggregating w1 = isAggregating w"
  by (auto simp: baseLoadUsers_eq split: option.splits if_splits)

lemma aggregate_finish_flag [simp]: "\<not> isAggregating (aggregate_finish now stamp pd s w)"
  by (simp add: aggregate_finish_def Let_def)

lemma aggregate_begin_busy: "isAggregating w \<Longrightarrow> aggregate_begin w = (w, None)"
  by (simp add: aggregate_begin_def aggregate_enter_def)

lemma aggregate_begin_idle:
  assumes "\<not> isAggregating w"
  shows "(\<exists>w1. aggregate_begin w = (w1, None) \<and> \<not> isAggregating w1)
         \<or> (\<exists>w1 s. aggregate_begin w = (w1, Some s) \<and> isAggregating w1)"
proof (cases "baseLoadUsers (w\<lparr>isAggregating := True\<rparr>)")
  case (Inl e)
  then show ?thesis using assms by (simp add: aggregate_begin_def aggregate_enter_def)
next
  case (Inr r)
  obtain us w1 where r: "r = (us, w1)" by (cases r) auto
  have "isAggregating w1" using baseLoadUsers_flag [of "w\<lparr>isAggregating := True\<rparr>" us w1] Inr r by simp
  then show ?thesis using assms Inr r by (simp add: aggregate_begin_def aggregate_enter_def)
qed

lemma sys_step_inv: "in_flight_ok s \<Longrightarrow> in_flight_ok (sys_step pd ev s)"
proof (cases s)
  case (Pair w fs)
  assume inv: "in_flight_ok s"
  show ?thesis
  proof (cases ev)
    case (Request now stamp)
    show ?thesis
    proof (cases "isAggregating w")
      case True
      then show ?thesis using inv Pair Request by (simp add: aggregate_begin_busy)
    next
      case False
      then have fs: "fs = []" using inv Pair by (simp add: in_flight_ok_def)
      from aggregate_begin_idle [OF False] show ?thesis
        using Pair Request fs by (auto simp: in_flight_ok_def split: if_splits)
    qed
  next
    case (Settled k i r now stamp)
    show ?thesis
    proof (cases "k < length fs \<and> i \<in> set (snd (fs ! k))")
      case True
      then have "isAggregating w" "length fs = 1" using inv Pair
        by (auto simp: in_flight_ok_def split: if_splits)
      then show ?thesis using True Pair Settled by (auto simp: in_flight_ok_def Let_def)
    next
      case False
      then show ?thesis using inv Pair Settled by auto
    qed
  next
    case (Enable n)
    then show ?thesis using inv Pair by (simp add: in_flight_ok_def)
  next
    case (Disable n)
    then show ?thesis using inv Pair by (simp add: in_flight_ok_def)
  next
    case (ResetQuota n)
    then show ?thesis using inv Pair by (simp add: in_flight_ok_def)
  qed
qed

lemma fold_sys_step_inv: "in_flight_ok s \<Longrightarrow> in_flight_ok (fold (sys_step pd) evs s)"
  by (induction evs arbitrary: s) (simp_all add: sys_step_inv)

lemma worker_step_const: "worker_step (\<lambda>_. q i) i s = worker_step q i s"
  by (simp add: worker_step_def)

lemma valid_sched_set: "valid_sched sched n \<Longrightarrow> set sched = {..<n}"
proof -
  assume v: "valid_sched sched n"
  have d: "distinct sched" and l: "length sched = n" and b: "set sched \<subseteq> {..<n}"
    using v by (auto simp: valid_sched_def list_all_iff)
  have "card (set sched) = n" using d l by (simp add: distinct_card)
  then show "set sched = {..<n}" using b by (simp add: card_subset_eq)
qed

lemma aggregate_split:
  assumes "\<not> isAggregating w" and "baseLoadUsers (w\<lparr>isAggregating := True\<rparr>) = Inr (us1, w1)"
  shows "aggregate now stamp pd q sched w =
           aggregate_finish now stamp pd
             (fold (worker_step q) sched
                \<lparr>store = readUsageOrEmpty w1, users = us1, storeChanged = False\<rparr>) w1"
  using assms
  by (simp add: aggregate_def aggregate_enter_def aggregate_run_def aggregate_try_def
        accumulateUsageAsync_def aggregate_finish_def Let_def)

lemma aggregate_failed_load:
  assumes "\<not> isAggregating w" and "baseLoadUsers (w\<lparr>isAggregating := True\<rparr>) = Inl e"
  shows "aggregate now stamp pd q sched w = w\<lparr>isAggregating := False\<rparr>"
  using assms
  by (simp add: aggregate_def aggregate_enter_def aggregate_run_def aggregate_try_def)

lemma baseLoadUsers_Inr_length:
  "baseLoadUsers w = Inr (us1, w1) \<Longrightarrow> \<exists>us. usersFile w = Some us \<and> length us1 = length us"
  by (auto simp: baseLoadUsers_eq split: option.splits if_splits)

lemma settled_without_flight:
  "fold (sys_step pd) (map (\<lambda>i. Settled 0 i (q i) now stamp) sched) (w, []) = (w, [])"
  by (induction sched) simp_all

lemma settle_step_last:
  "i \<in> set pend \<Longrightarrow> removeAll i pend = [] \<Longrightarrow>
   sys_step pd (Settled 0 i (q i) now stamp) (w, [(s, pend)])
     = (aggregate_finish now stamp pd (worker_step q i s) w, [])"
  by (simp add: worker_step_const [of q i] del: removeAll.simps)

lemma settle_step_more:
  "i \<in> set pend \<Longrightarrow> removeAll i pend \<noteq> [] \<Longrightarrow>
   sys_step pd (Settled 0 i (q i) now stamp) (w, [(s, pend)])
     = (w, [(worker_step q i s, removeAll i pend)])"
  by (simp add: worker_step_const [of q i] del: removeAll.simps)

lemma settle_all:
  assumes "distinct sched" and "set sched = set pend" and "sched \<noteq> []"
  shows "fold (sys_step pd) (map (\<lambda>i. Settled 0 i (q i) now stamp) sched) (w, [(s, pend)])
           = (aggregate_finish now stamp pd (fold (worker_step q) sched s) w, [])"
  using assms
proof (induction sched arbitrary: s pend)
  case Nil
  then show ?case by simp
next
  case (Cons i rest)
  have ip: "i \<in> set pend" using Cons.prems(2) by auto
  have inr: "i \<notin> set rest" and d: "distinct rest" using Cons.prems(1) by simp_all
  have "set (removeAll i pend) = set pend - {i}" by simp
  also have "\<dots> = insert i (set rest) - {i}" using Cons.prems(2) by simp
  also have "\<dots> = set rest" using inr by simp
  finally have rest_set: "set rest = set (removeAll i pend)" by (rule sym)
  have unfold: "fold (sys_step pd) (map (\<lambda>i. Settled 0 i (q i) now stamp) (i # rest)) (w, [(s, pend)])
      = fold (sys_step pd) (map (\<lambda>i. Settled 0 i (q i) now stamp) rest)
          (sys_step pd (Settled 0 i (q i) now stamp) (w, [(s, pend)]))"
    by (simp del: sys_step.simps)
  show ?case
  proof (cases "rest = []")
    case True
    have "set (removeAll i pend) = set rest" by (rule rest_set [symmetric])
    then have "set (removeAll i pend) = {}" unfolding True by (simp del: set_removeAll)
    then have e: "removeAll i pend = []" by (simp only: set_empty)
    show ?thesis
      unfolding unfold settle_step_last [OF ip e] using True by (simp del: sys_step.simps)
  next
    case False
    have ne: "removeAll i pend \<noteq> []"
    proof
      assume a: "removeAll i pend = []"
      have "set rest = {}" unfolding rest_set a by simp
      then show False using False by simp
    qed
    have "fold (sys_step pd) (map (\<lambda>i. Settled 0 i (q i) now stamp) rest)
            (w, [(worker_step q i s, removeAll i pend)])
          = (aggregate_finish now stamp pd (fold (worker_step q) rest (worker_step q i s)) w, [])"
      by (rule Cons.IH [OF d rest_set False])
    then show ?thesis
      unfolding unfold settle_step_more [OF ip ne] by (simp del: sys_step.simps)
  qed
qed

text \<open>A cycle whose events follow one another with nothing in between is \<open>aggregate\<close>.\<close>

lemma cycle_uninterrupted:
  assumes "\<forall>us. usersFile w = Some us \<longrightarrow> valid_sched sched (length us)"
  shows "fold (sys_step pd) (cycle_events now stamp q sched) (w, [])
           = (aggregate now stamp pd q sched w, [])"
proof (cases "isAggregating w")
  case True
  then show ?thesis
    by (simp add: cycle_events_def aggregate_begin_busy settled_without_flight aggregate_busy)
next
  case False
  show ?thesis
  proof (cases "baseLoadUsers (w\<lparr>isAggregating := True\<rparr>)")
    case (Inl e)
    then show ?thesis using False
      by (simp add: cycle_events_def aggregate_begin_def aggregate_enter_def
            settled_without_flight aggregate_failed_load)
  next
    case (Inr r)
    obtain us1 w1 where r: "r = (us1, w1)" by (cases r) auto
    let ?s0 = "\<lparr>store = readUsageOrEmpty w1, users = us1, storeChanged = False\<rparr>"
    have beg: "aggregate_begin w = (w1, Some ?s0)"
      using False Inr r by (simp add: aggregate_begin_def aggregate_enter_def)
    obtain us where us: "usersFile w = Some us" "length us1 = length us"
      using baseLoadUsers_Inr_length [of "w\<lparr>isAggregating := True\<rparr>" us1 w1] Inr r by auto
    have v: "valid_sched sched (length us1)" using assms us by simp
    have agg: "aggregate now stamp pd q sched w
                 = aggregate_finish now stamp pd (fold (worker_step q) sched ?s0) w1"
      using aggregate_split [OF False] Inr r by simp
    show ?thesis
    proof (cases "us1 = []")
      case True
      then have e: "sched = []" using v by (simp add: valid_sched_def)
      have "sys_step pd (Request now stamp) (w, [])
              = (aggregate_finish now stamp pd ?s0 w1, [])"
        using True beg by simp
      moreover have "aggregate now stamp pd q sched w = aggregate_finish now stamp pd ?s0 w1"
        using agg e by simp
      ultimately show ?thesis unfolding cycle_events_def e by simp
    next
      case False
      have l: "length sched = length us1" using v by (simp add: valid_sched_def)
      have ne: "sched \<noteq> []" using l False by (cases sched) simp_all
      have st: "set sched = set [0..<length us1]"
        unfolding valid_sched_set [OF v] by (simp add: atLeast0LessThan)
      have d: "distinct sched" using v by (simp add: valid_sched_def)
      have req: "sys_step pd (Request now stamp) (w, []) = (w1, [(?s0, [0..<length us1])])"
        using False beg by simp
      have "fold (sys_step pd) (cycle_events now stamp q sched) (w, [])
              = fold (sys_step pd) (map (\<lambda>i. Settled 0 i (q i) now stamp) sched)
                  (w1, [(?s0, [0..<length us1])])"
        unfolding cycle_events_def fold_Cons comp_def req ..
      also have "\<dots> = (aggregate_finish now stamp pd (fold (worker_step q) sched ?s0) w1, [])"
        by (rule settle_all [OF d st ne])
      finally show ?thesis unfolding agg .
    qed
  qed
qed

lemma uninterrupted_cycle_eq:
  "usersFile w = Some us \<Longrightarrow> valid_sched sched (length us) \<Longrightarrow>
   uninterrupted_cycle pd now stamp q sched w = aggregate now stamp pd q sched w"
  by (simp add: uninterrupted_cycle_def cycle_uninterrupted)

section \<open>The defaults that loading fills in\<close>

lemma assignDefaults_nth_id:
  "j < length us \<Longrightarrow>
   fst (assignDefaults m us) ! j
     = defaulted (m + int (length (filter (\<lambda>u. user_id u = None) (take j us)))) (us ! j)"
proof (induction us arbitrary: j m)
  case Nil
  then show ?case by simp
next
  case (Cons u us)
  show ?case
  proof (cases j)
    case 0
    then show ?thesis by (simp add: assignDefaults_Cons del: assignDefaults.simps(2))
  next
    case (Suc j')
    then have j': "j' < length us" using Cons.prems by simp
    show ?thesis
      using Cons.IH [OF j', of "nextMax m u"] Suc
      by (simp add: assignDefaults_Cons nextMax_def add.assoc del: assignDefaults.simps(2))
  qed
qed

lemma loaded_nth_id:
  assumes "j < length us"
  shows "loaded us ! j
     = (us ! j)\<lparr>user_id :=
                  (if user_id (us ! j) = None
                   then Some (maxIdOf us
                              + int (length (filter (\<lambda>u. user_id u = None) (take (Suc j) us))))
                   else user_id (us ! j)),
                statKey :=
                  (if statKey (us ! j) \<noteq> [] then statKey (us ! j)
                   else if displayName (us ! j) \<noteq> [] then displayName (us ! j)
                   else if username (us ! j) \<noteq> [] then username (us ! j)
                   else uuid (us ! j))\<rparr>"
proof -
  have "take (Suc j) us = take j us @ [us ! j]" using assms by (rule take_Suc_conv_app_nth)
  then show ?thesis
    unfolding loaded_def assignDefaults_nth_id [OF assms]
    by (simp add: defaulted_def keyDefault_def js_or_def)
qed

section \<open>The claims\<close>

subsection \<open>C1: accumulation over successive cycles\<close>

text \<open>
  C1, as amended. The claim says that a key with no entry, observed through successive
  cycles with readings \<open>r0 <= r1 <= ... <= rn\<close>, ends with \<open>accumBytes = rn - r0\<close>, and with
  \<open>0\<close> after the first observation. The code assigns the first reading to \<open>accumBytes\<close>
  (line 142), so the statement that holds is: starting with no entry for the user's key,
  after any non-empty sequence of cycles whose readings for that user never decrease, the
  persisted entry is \<open>{accumBytes = rn, lastRawBytes = rn}\<close>; after the first cycle alone
  \<open>accumBytes\<close> is the first reading. The cycles run one after the other with nothing else
  writing the stores, both files are writable, and the user's uuid is not shared.
\<close>

theorem accumulated_equals_last_reading:
  assumes "\<not> isAggregating w" and "usersFile w = Some us"
    and "usersWritable w" and "usageWritable w"
    and "distinct (map uuid us)" and "j < length us"
    and "readUsageOrEmpty w (uuid (us ! j)) = None"
    and "cs \<noteq> []"
    and "\<forall>c\<in>set cs. valid_sched (cycle_sched c) (length us)"
    and "sorted (map (cycle_raw (us ! j) j) cs)"
  shows "\<exists>st'. usageFile (run_cycles pd cs w) = Some st'
           \<and> st' (uuid (us ! j))
               = Some \<lparr>accumBytes = cycle_raw (us ! j) j (last cs),
                       lastRawBytes = cycle_raw (us ! j) j (last cs)\<rparr>"
proof -
  have st: "steady us w" using assms(1-4) by (simp add: steady_def)
  have "readUsageOrEmpty (run_cycles pd cs w) (uuid (us ! j))
           = observe (map (cycle_raw (us ! j) j) cs) None"
    using run_cycles_entry [OF st assms(9,5,6), of pd] assms(7) by simp
  also have "\<dots> = Some \<lparr>accumBytes = last (map (cycle_raw (us ! j) j) cs),
                          lastRawBytes = last (map (cycle_raw (us ! j) j) cs)\<rparr>"
    by (rule observe_first) (use assms(8,10) in simp_all)
  finally have "readUsageOrEmpty (run_cycles pd cs w) (uuid (us ! j))
           = Some \<lparr>accumBytes = cycle_raw (us ! j) j (last cs),
                   lastRawBytes = cycle_raw (us ! j) j (last cs)\<rparr>"
    using assms(8) by (simp add: last_map)
  then show ?thesis
    by (cases "usageFile (run_cycles pd cs w)")
       (simp_all add: readUsageOrEmpty_def readUsage_def)
qed

text \<open>
  Two cycles on a fresh store with readings 500 and 700 leave \<open>{700, 700}\<close>.
\<close>

theorem accumulated_equals_last_reading_witness:
  "\<exists>st'. usageFile (run_cycles (\<lambda>s. None)
            [(5, 6, \<lambda>i. uplink ''alice'' 500, [0]), (15, 16, \<lambda>i. uplink ''alice'' 700, [0])]
            w_fresh) = Some st'
         \<and> st' ''u-1'' = Some \<lparr>accumBytes = 700, lastRawBytes = 700\<rparr>"
proof -
  let ?cs = "[(5, 6, \<lambda>i. uplink ''alice'' 500, [0]), (15, 16, \<lambda>i. uplink ''alice'' 700, [0])]
               :: cycle list"
  have h1: "\<not> isAggregating w_fresh" and h2: "usersFile w_fresh = Some [alice]"
    and h3: "usersWritable w_fresh" and h4: "usageWritable w_fresh"
    by (simp_all add: w_fresh_def)
  have h5: "distinct (map uuid [alice])" and h6: "(0::nat) < length [alice]" by simp_all
  have h7: "readUsageOrEmpty w_fresh (uuid ([alice] ! 0)) = None"
    by (simp add: w_fresh_def readUsageOrEmpty_def readUsage_def)
  have h8: "?cs \<noteq> []" by simp
  have h9: "\<forall>c\<in>set ?cs. valid_sched (cycle_sched c) (length [alice])"
    by (simp add: valid_sched_def cycle_sched_def)
  have h10: "sorted (map (cycle_raw ([alice] ! 0) 0) ?cs)"
    by (simp add: cycle_raw_def alice_def uplink_def statKeyOf_def js_or_def queryRawBytes_def
          statPrefix_def startsWith_def)
  show ?thesis
    using accumulated_equals_last_reading [OF h1 h2 h3 h4 h5 h6 h7 h8 h9 h10, of "\<lambda>s. None"]
    by (simp add: cycle_raw_def alice_def uplink_def statKeyOf_def js_or_def queryRawBytes_def
          statPrefix_def startsWith_def)
qed

text \<open>
  The claim as stated fails: one cycle with the reading 10000 leaves \<open>accumBytes = 10000\<close>,
  not 0, and the readings 500, 700 leave 700, not 200.
\<close>

theorem first_reading_is_charged_counterexample:
  "usageFile w_fresh = Some Map.empty
   \<and> (case usageFile (run_cycles (\<lambda>s. None) [(5, 6, \<lambda>i. uplink ''alice'' 10000, [0])] w_fresh)
      of None \<Rightarrow> None | Some st \<Rightarrow> st ''u-1'')
       = Some \<lparr>accumBytes = 10000, lastRawBytes = 10000\<rparr>
   \<and> (case usageFile (run_cycles (\<lambda>s. None)
          [(5, 6, \<lambda>i. uplink ''alice'' 500, [0]), (15, 16, \<lambda>i. uplink ''alice'' 700, [0])] w_fresh)
      of None \<Rightarrow> None | Some st \<Rightarrow> st ''u-1'')
       = Some \<lparr>accumBytes = 700, lastRawBytes = 700\<rparr>"
  by (simp add: model_defs w_fresh_def alice_def uplink_def)

subsection \<open>C2: the step on an existing entry\<close>

text \<open>
  C2. For a user whose key already has an entry \<open>{accumBytes, lastRawBytes}\<close>, one
  reconciliation step with the observed value \<open>rawBytes\<close> leaves the entry
  \<open>{accumBytes + (rawBytes - lastRawBytes), rawBytes}\<close> when \<open>rawBytes >= lastRawBytes\<close>,
  and \<open>{accumBytes + rawBytes, rawBytes}\<close> when \<open>rawBytes < lastRawBytes\<close>.
\<close>

theorem step_on_existing_entry:
  assumes "i < length (users s)"
    and "store s (uuid (users s ! i)) = Some e"
    and "rawBytes = queryRawBytes (statKeyOf (users s ! i)) (q i)"
  shows "store (worker_step q i s) (uuid (users s ! i)) =
           Some (if rawBytes \<ge> lastRawBytes e
                 then \<lparr>accumBytes = accumBytes e + (rawBytes - lastRawBytes e),
                       lastRawBytes = rawBytes\<rparr>
                 else \<lparr>accumBytes = accumBytes e + rawBytes, lastRawBytes = rawBytes\<rparr>)"
  using assms by (simp add: worker_step_def Let_def reconcile_Some split: prod.splits)

text \<open>
  A counter that fell from 700 to 100 adds the full 100.
\<close>

theorem step_on_existing_entry_witness:
  "store (worker_step (\<lambda>i. uplink ''alice'' 100) 0
            \<lparr>store = [''u-1'' \<mapsto> \<lparr>accumBytes = 200, lastRawBytes = 700\<rparr>],
             users = [alice], storeChanged = False\<rparr>) ''u-1''
   = Some \<lparr>accumBytes = 300, lastRawBytes = 100\<rparr>"
  using step_on_existing_entry
    [of 0 "\<lparr>store = [''u-1'' \<mapsto> \<lparr>accumBytes = 200, lastRawBytes = 700\<rparr>],
              users = [alice], storeChanged = False\<rparr>"
        "\<lparr>accumBytes = 200, lastRawBytes = 700\<rparr>" 100 "\<lambda>i. uplink ''alice'' 100"]
  by (simp add: alice_def uplink_def statKeyOf_def js_or_def queryRawBytes_def statPrefix_def
        startsWith_def)

subsection \<open>C3: the enablement policy\<close>

text \<open>
  C3, as amended. The claim speaks of every completed cycle. The cycle works on the copy of
  the user array that it loaded at its call, and at its end writes the flags computed from
  that copy into the user store as it is then; a request served while the cycle waits for
  its queries is therefore not seen by it. The statement that holds is about a cycle
  during which no other request is served (the request and then its queries settling, in
  any order). Such a cycle runs to its end, and for each user the persisted \<open>enabled\<close> flag
  is (previous \<open>enabled\<close>) and not breached: for a stored boolean \<open>b\<close> it is \<open>b\<close> and not
  breached, for a stored falsy value that is not a boolean (also a missing field) it is
  \<open>false\<close>, and for a stored truthy value that is not a boolean it is not breached. Breached
  means that the quota is a number other than \<open>-1\<close> and the precise usage in GB (the
  snapshot's \<open>bandwidthUsageRaw\<close>, which is the accumulator entry reconciled in this cycle
  divided by \<open>2^30\<close>) is at least the quota, or that an expiry is set and \<open>daysLeft <= 0\<close>;
  \<open>daysLeft\<close> is \<open>-1\<close> with no expiry and otherwise \<open>max(0, ceil((expiry - now) / 1 day))\<close>.
  The user store is writable and the identifiers present in it are distinct. For an expiry
  string that does not parse as a date \<open>daysLeft\<close> is NaN (\<open>None\<close>) and the comparison is
  false. So such a cycle forces \<open>enabled\<close> to \<open>false\<close> on a breach and never turns a stored
  \<open>false\<close> into \<open>true\<close>.
\<close>

theorem cycle_enabled_policy:
  assumes "\<not> isAggregating w" and "usersFile w = Some us" and "usersWritable w"
    and "distinct (List.map_filter user_id us)" and "valid_sched sched (length us)"
    and "j < length us"
  shows "snd (fold (sys_step pd) (cycle_events now stamp q sched) (w, [])) = []
       \<and> (\<exists>us'.
           usersFile (uninterrupted_cycle pd now stamp q sched w) = Some us'
         \<and> length us' = length us
         \<and> length (cachedEnriched (uninterrupted_cycle pd now stamp q sched w)) = length us
         \<and> bandwidthUsageRaw (cachedEnriched (uninterrupted_cycle pd now stamp q sched w) ! j)
             = of_int (case usageAccumBytes
                              (cachedEnriched (uninterrupted_cycle pd now stamp q sched w) ! j)
                       of Some b \<Rightarrow> b | None \<Rightarrow> 0) / 1073741824
         \<and> (distinct (map uuid us) \<longrightarrow>
               usageAccumBytes (cachedEnriched (uninterrupted_cycle pd now stamp q sched w) ! j)
                 = Some (accumBytes (fst (reconcile (readUsageOrEmpty w (uuid (us ! j)))
                                            (queryRawBytes (statKeyOf (us ! j)) (q j))))))
         \<and> daysLeft (cachedEnriched (uninterrupted_cycle pd now stamp q sched w) ! j)
             = spec_daysLeft now (expiry (us ! j) \<noteq> []) (pd (expiry (us ! j)))
         \<and> (\<forall>b. enabled (us ! j) = Flag b \<longrightarrow>
               enabled (us' ! j)
                 = Flag (b \<and> \<not> spec_breached (quota (us ! j))
                     (bandwidthUsageRaw (cachedEnriched (uninterrupted_cycle pd now stamp q sched w) ! j))
                     (expiry (us ! j) \<noteq> [])
                     (daysLeft (cachedEnriched (uninterrupted_cycle pd now stamp q sched w) ! j))))
         \<and> (enabled (us ! j) = FalsyValue \<longrightarrow> enabled (us' ! j) = Flag False)
         \<and> (enabled (us ! j) = TruthyValue \<longrightarrow>
               enabled (us' ! j)
                 = Flag (\<not> spec_breached (quota (us ! j))
                     (bandwidthUsageRaw (cachedEnriched (uninterrupted_cycle pd now stamp q sched w) ! j))
                     (expiry (us ! j) \<noteq> [])
                     (daysLeft (cachedEnriched (uninterrupted_cycle pd now stamp q sched w) ! j)))))"
proof -
  let ?w' = "aggregate now stamp pd q sched w"
  let ?enr = "snapshotOf now pd q sched us w"
  let ?u2 = "users (accState q sched (loaded us) w) ! j"
  have v: "\<forall>us0. usersFile w = Some us0 \<longrightarrow> valid_sched sched (length us0)"
    using assms(2,5) by simp
  have run: "fold (sys_step pd) (cycle_events now stamp q sched) (w, []) = (?w', [])"
    by (rule cycle_uninterrupted [OF v])
  have uc: "uninterrupted_cycle pd now stamp q sched w = ?w'"
    by (rule uninterrupted_cycle_eq [OF assms(2,5)])
  have ok: "usersWritable w \<or> \<not> list_ex lacksDefaults us" using assms(3) by simp
  have fileq: "usersFile ?w' = Some (flagsOf ?enr (loaded us))"
    by (rule cycle_enabled_core(1) [OF assms(1,2,3,4,6)])
  have cache: "cachedEnriched ?w' = ?enr"
    by (rule cycle_enabled_core(2) [OF assms(1,2,3,4,6)])
  have snap: "?enr ! j = enrich now pd ?u2"
    by (rule cycle_enabled_core(3) [OF assms(1,2,3,4,6)])
  have res: "enabled (flagsOf ?enr (loaded us) ! j)
           = Flag (truthy (enabled (us ! j)) \<and> \<not> breached now pd ?u2)"
    by (rule cycle_enabled_core(4) [OF assms(1,2,3,4,6)])
  have f: "quota ?u2 = quota (us ! j)" "expiry ?u2 = expiry (us ! j)"
    using assms(6) by (simp_all add: cycle_user_fields)
  have dl: "daysLeft (?enr ! j) = spec_daysLeft now (expiry (us ! j) \<noteq> []) (pd (expiry (us ! j)))"
    by (simp add: snap daysLeftOf_spec f)
  have raw: "bandwidthUsageRaw (?enr ! j)
      = of_int (case usageAccumBytes (?enr ! j) of Some b \<Rightarrow> b | None \<Rightarrow> 0) / 1073741824"
    by (simp add: snap usagePreciseGB_def)
  have br: "breached now pd ?u2
      = spec_breached (quota (us ! j)) (bandwidthUsageRaw (?enr ! j)) (expiry (us ! j) \<noteq> [])
          (daysLeft (?enr ! j))"
    using breached_spec [of now pd ?u2] by (simp add: snap f)
  have tie: "distinct (map uuid us) \<longrightarrow>
               usageAccumBytes (?enr ! j)
                 = Some (accumBytes (fst (reconcile (readUsageOrEmpty w (uuid (us ! j)))
                                            (queryRawBytes (statKeyOf (us ! j)) (q j)))))"
    using cycle_entry(1) [OF assms(1,2) ok assms(5) _ assms(6), of now stamp pd q]
    by (simp add: cache)
  have e1: "\<forall>b. enabled (us ! j) = Flag b \<longrightarrow>
               enabled (flagsOf ?enr (loaded us) ! j)
                 = Flag (b \<and> \<not> spec_breached (quota (us ! j)) (bandwidthUsageRaw (?enr ! j))
                     (expiry (us ! j) \<noteq> []) (daysLeft (?enr ! j)))"
    unfolding res br by (simp add: truthy_def)
  have e2: "enabled (us ! j) = FalsyValue \<longrightarrow> enabled (flagsOf ?enr (loaded us) ! j) = Flag False"
    unfolding res by (simp add: truthy_def)
  have e3: "enabled (us ! j) = TruthyValue \<longrightarrow>
               enabled (flagsOf ?enr (loaded us) ! j)
                 = Flag (\<not> spec_breached (quota (us ! j)) (bandwidthUsageRaw (?enr ! j))
                     (expiry (us ! j) \<noteq> []) (daysLeft (?enr ! j)))"
    unfolding res br by (simp add: truthy_def)
  show ?thesis
    unfolding uc run cache
  proof (intro conjI, simp, rule exI [of _ "flagsOf ?enr (loaded us)"], intro conjI)
    show "usersFile ?w' = Some (flagsOf ?enr (loaded us))" by (rule fileq)
    show "length (flagsOf ?enr (loaded us)) = length us" by simp
    show "length ?enr = length us" by simp
    show "bandwidthUsageRaw (?enr ! j)
      = of_int (case usageAccumBytes (?enr ! j) of Some b \<Rightarrow> b | None \<Rightarrow> 0) / 1073741824"
      by (rule raw)
    show "distinct (map uuid us) \<longrightarrow>
               usageAccumBytes (?enr ! j)
                 = Some (accumBytes (fst (reconcile (readUsageOrEmpty w (uuid (us ! j)))
                                            (queryRawBytes (statKeyOf (us ! j)) (q j)))))"
      by (rule tie)
    show "daysLeft (?enr ! j) = spec_daysLeft now (expiry (us ! j) \<noteq> []) (pd (expiry (us ! j)))"
      by (rule dl)
    show "\<forall>b. enabled (us ! j) = Flag b \<longrightarrow>
               enabled (flagsOf ?enr (loaded us) ! j)
                 = Flag (b \<and> \<not> spec_breached (quota (us ! j)) (bandwidthUsageRaw (?enr ! j))
                     (expiry (us ! j) \<noteq> []) (daysLeft (?enr ! j)))"
      by (rule e1)
    show "enabled (us ! j) = FalsyValue \<longrightarrow> enabled (flagsOf ?enr (loaded us) ! j) = Flag False"
      by (rule e2)
    show "enabled (us ! j) = TruthyValue \<longrightarrow>
               enabled (flagsOf ?enr (loaded us) ! j)
                 = Flag (\<not> spec_breached (quota (us ! j)) (bandwidthUsageRaw (?enr ! j))
                     (expiry (us ! j) \<noteq> []) (daysLeft (?enr ! j)))"
      by (rule e3)
  qed
qed

text \<open>
  A cycle over six users: one passes the quota in this cycle, one is within policy, one
  was disabled by hand, two have a stored \<open>enabled\<close> that is not a boolean (falsy and
  truthy), and one is past the expiry.
\<close>

theorem cycle_enabled_policy_witness:
  "snd (fold (sys_step pd_2020) (cycle_events 1600000000000 1600000000001 q_alice_only [3, 0, 5, 1, 4, 2])
          (w_policy, [])) = []
   \<and> usageAccumBytes (cachedEnriched (uninterrupted_cycle pd_2020 1600000000000 1600000000001
                          q_alice_only [3, 0, 5, 1, 4, 2] w_policy) ! 0) = Some 1073742300
   \<and> daysLeft (cachedEnriched (uninterrupted_cycle pd_2020 1600000000000 1600000000001
                          q_alice_only [3, 0, 5, 1, 4, 2] w_policy) ! 5) = Some 0
   \<and> (\<exists>us'. usersFile (uninterrupted_cycle pd_2020 1600000000000 1600000000001 q_alice_only
                          [3, 0, 5, 1, 4, 2] w_policy) = Some us'
         \<and> length us' = 6
         \<and> enabled (us' ! 0) = Flag False
         \<and> enabled (us' ! 1) = Flag True
         \<and> enabled (us' ! 2) = Flag False
         \<and> enabled (us' ! 3) = Flag False
         \<and> enabled (us' ! 4) = Flag True
         \<and> enabled (us' ! 5) = Flag False)"
proof -
  let ?us = "[alice, bob, dan, erin, fay, gus]"
  let ?w' = "uninterrupted_cycle pd_2020 1600000000000 1600000000001 q_alice_only
               [3, 0, 5, 1, 4, 2] w_policy"
  have h1: "\<not> isAggregating w_policy" and h2: "usersFile w_policy = Some ?us"
    and h3: "usersWritable w_policy"
    by (simp_all add: w_policy_def)
  have h4: "distinct (List.map_filter user_id ?us)"
    by (simp add: map_filter_simps alice_def bob_def dan_def erin_def fay_def gus_def)
  have h5: "valid_sched [3, 0, 5, 1, 4, 2] (length ?us)" by (simp add: valid_sched_def)
  have du: "distinct (map uuid ?us)"
    by (simp add: alice_def bob_def dan_def erin_def fay_def gus_def)
  note t = cycle_enabled_policy
             [where w = w_policy and us = ?us and sched = "[3, 0, 5, 1, 4, 2]"
                and q = q_alice_only and now = 1600000000000 and stamp = 1600000000001
                and pd = pd_2020, OF h1 h2 h3 h4 h5]
  let ?snap = "\<lambda>j. cachedEnriched ?w' ! j"
  let ?B = "\<lambda>j. spec_breached (quota (?us ! j)) (bandwidthUsageRaw (?snap j))
                  (expiry (?us ! j) \<noteq> []) (daysLeft (?snap j))"
  have l0: "(0::nat) < length ?us" and l1: "(1::nat) < length ?us" and l2: "(2::nat) < length ?us"
    and l3: "(3::nat) < length ?us" and l4: "(4::nat) < length ?us" and l5: "(5::nat) < length ?us"
    by simp_all
  have fin: "snd (fold (sys_step pd_2020)
                 (cycle_events 1600000000000 1600000000001 q_alice_only [3, 0, 5, 1, 4, 2])
                 (w_policy, [])) = []"
    using t [OF l0] by (rule conjunct1)
  obtain us' where u0: "usersFile ?w' = Some us'" "length us' = length ?us"
    and raw0: "bandwidthUsageRaw (?snap 0)
                 = of_int (case usageAccumBytes (?snap 0) of Some b \<Rightarrow> b | None \<Rightarrow> 0) / 1073741824"
    and tie0: "distinct (map uuid ?us) \<longrightarrow>
                 usageAccumBytes (?snap 0)
                   = Some (accumBytes (fst (reconcile (readUsageOrEmpty w_policy (uuid (?us ! 0)))
                                              (queryRawBytes (statKeyOf (?us ! 0)) (q_alice_only 0)))))"
    and e0: "\<forall>b. enabled (?us ! 0) = Flag b \<longrightarrow> enabled (us' ! 0) = Flag (b \<and> \<not> ?B 0)"
    using t [OF l0] by blast
  have same: "v = us'" if "usersFile ?w' = Some v" for v using that u0(1) by simp
  obtain v1 where "usersFile ?w' = Some v1"
    and "\<forall>b. enabled (?us ! 1) = Flag b \<longrightarrow> enabled (v1 ! 1) = Flag (b \<and> \<not> ?B 1)"
    using t [OF l1] by blast
  then have e1: "\<forall>b. enabled (?us ! 1) = Flag b \<longrightarrow> enabled (us' ! 1) = Flag (b \<and> \<not> ?B 1)"
    using same by blast
  obtain v2 where "usersFile ?w' = Some v2"
    and "\<forall>b. enabled (?us ! 2) = Flag b \<longrightarrow> enabled (v2 ! 2) = Flag (b \<and> \<not> ?B 2)"
    using t [OF l2] by blast
  then have e2: "\<forall>b. enabled (?us ! 2) = Flag b \<longrightarrow> enabled (us' ! 2) = Flag (b \<and> \<not> ?B 2)"
    using same by blast
  obtain v3 where "usersFile ?w' = Some v3"
    and "enabled (?us ! 3) = FalsyValue \<longrightarrow> enabled (v3 ! 3) = Flag False"
    using t [OF l3] by blast
  then have e3: "enabled (?us ! 3) = FalsyValue \<longrightarrow> enabled (us' ! 3) = Flag False"
    using same by blast
  obtain v4 where "usersFile ?w' = Some v4"
    and "enabled (?us ! 4) = TruthyValue \<longrightarrow> enabled (v4 ! 4) = Flag (\<not> ?B 4)"
    using t [OF l4] by blast
  then have e4: "enabled (?us ! 4) = TruthyValue \<longrightarrow> enabled (us' ! 4) = Flag (\<not> ?B 4)"
    using same by blast
  obtain v5 where "usersFile ?w' = Some v5"
    and d5: "daysLeft (?snap 5)
               = spec_daysLeft 1600000000000 (expiry (?us ! 5) \<noteq> []) (pd_2020 (expiry (?us ! 5)))"
    and "\<forall>b. enabled (?us ! 5) = Flag b \<longrightarrow> enabled (v5 ! 5) = Flag (b \<and> \<not> ?B 5)"
    using t [OF l5] by blast
  then have e5: "\<forall>b. enabled (?us ! 5) = Flag b \<longrightarrow> enabled (us' ! 5) = Flag (b \<and> \<not> ?B 5)"
    using same by blast
  have acc0: "usageAccumBytes (?snap 0) = Some 1073742300"
    using tie0 du
    by (simp add: alice_def w_policy_def readUsageOrEmpty_def readUsage_def q_alice_only_def
          query_defs reconcile_def)
  have b0: "?B 0" unfolding raw0 acc0 by (simp add: spec_breached_def alice_def)
  have n0: "enabled (?us ! 0) = Flag True" by (simp add: alice_def)
  have "enabled (us' ! 0) = Flag (True \<and> \<not> ?B 0)" using e0 n0 by blast
  then have a0: "enabled (us' ! 0) = Flag False" using b0 by simp
  have b1: "\<not> ?B 1" by (simp add: spec_breached_def bob_def)
  have n1: "enabled (?us ! 1) = Flag True" by (simp add: bob_def)
  have "enabled (us' ! 1) = Flag (True \<and> \<not> ?B 1)" using e1 n1 by blast
  then have a1: "enabled (us' ! 1) = Flag True" using b1 by simp
  have n2: "enabled (?us ! 2) = Flag False" by (simp add: dan_def)
  have "enabled (us' ! 2) = Flag (False \<and> \<not> ?B 2)" using e2 n2 by blast
  then have a2: "enabled (us' ! 2) = Flag False" by simp
  have a3: "enabled (us' ! 3) = Flag False" using e3 by (simp add: erin_def)
  have b4: "\<not> ?B 4" by (simp add: spec_breached_def fay_def)
  have a4: "enabled (us' ! 4) = Flag True" using e4 b4 by (simp add: fay_def)
  have days5: "daysLeft (?snap 5) = Some 0"
    unfolding d5 by (simp add: gus_def spec_daysLeft_def pd_2020_def)
  have b5: "?B 5" unfolding days5 by (simp add: spec_breached_def gus_def)
  have n5: "enabled (?us ! 5) = Flag True" by (simp add: gus_def)
  have "enabled (us' ! 5) = Flag (True \<and> \<not> ?B 5)" using e5 n5 by blast
  then have a5: "enabled (us' ! 5) = Flag False" using b5 by simp
  show ?thesis using fin u0 a0 a1 a2 a3 a4 a5 acc0 days5 by simp
qed

text \<open>
  The claim as stated fails for a cycle during which the disable endpoint is served. The
  cycle loads \<open>bob\<close> enabled; while it waits for the query, \<open>POST /disable\<close> stores
  \<open>enabled = false\<close>; when the query has settled the cycle computes \<open>true\<close> from its copy
  (no quota, no expiry) and \<open>persistEnabledFlags\<close> writes it over the stored \<open>false\<close>: a
  completed cycle has changed the stored flag from \<open>false\<close> to \<open>true\<close>.
\<close>

theorem disable_during_cycle_counterexample:
  "map enabled (case usersFile (fst (fold (sys_step (\<lambda>s. None))
               [Request 5 6, Disable ''bob''] (w_bob, []))) of None \<Rightarrow> [] | Some us \<Rightarrow> us)
       = [Flag False]
   \<and> map enabled (case usersFile (fst (fold (sys_step (\<lambda>s. None))
               [Request 5 6, Disable ''bob'', Settled 0 0 (uplink ''bob'' 450) 7 8] (w_bob, [])))
                   of None \<Rightarrow> [] | Some us \<Rightarrow> us)
       = [Flag True]
   \<and> snd (fold (sys_step (\<lambda>s. None))
               [Request 5 6, Disable ''bob'', Settled 0 0 (uplink ''bob'' 450) 7 8] (w_bob, [])) = []
   \<and> quota bob = None \<and> expiry bob = []
   \<and> cacheStamp (fst (fold (sys_step (\<lambda>s. None))
               [Request 5 6, Disable ''bob'', Settled 0 0 (uplink ''bob'' 450) 7 8] (w_bob, []))) = 8"
  by (simp add: model_defs flight_defs w_bob_def bob_def uplink_def)

subsection \<open>C4: accumBytes never decreases in a cycle\<close>

text \<open>
  C4. Under a cycle whose readings are not negative, the \<open>accumBytes\<close> of every key that has
  an entry does not decrease, and a key that had none gets a non-negative value or stays
  without entry; the reset-quota operation sets the entry to \<open>{0, 0}\<close> and leaves the other
  entries as they are; the enable operation does not write the accumulator store.
\<close>

theorem accumBytes_never_decreases:
  "(usageFile w = Some st \<and> st k = Some e
      \<and> (\<forall>us. usersFile w = Some us \<longrightarrow> (\<forall>i<length us. 0 \<le> queryRawBytes (statKeyOf (us ! i)) (q i)))
    \<longrightarrow> (\<exists>st' e'. usageFile (aggregate now stamp pd q sched w) = Some st' \<and> st' k = Some e'
            \<and> accumBytes e \<le> accumBytes e'))
   \<and> (usageFile w = Some st \<and> st k = None
      \<and> (\<forall>us. usersFile w = Some us \<longrightarrow> (\<forall>i<length us. 0 \<le> queryRawBytes (statKeyOf (us ! i)) (q i)))
    \<longrightarrow> (\<exists>st'. usageFile (aggregate now stamp pd q sched w) = Some st'
            \<and> (st' k = None \<or> (\<exists>e'. st' k = Some e' \<and> 0 \<le> accumBytes e'))))
   \<and> (usageFile w = Some st \<and> usageWritable w \<and> usersWritable w \<and> usersFile w = Some us
        \<and> findUserIndex n us = Some i \<and> st (uuid (us ! i)) = Some e
    \<longrightarrow> fst (resetQuota n w) = Ok200
        \<and> usageFile (snd (resetQuota n w))
            = Some (st(uuid (us ! i) \<mapsto> \<lparr>accumBytes = 0, lastRawBytes = 0\<rparr>)))
   \<and> usageFile (snd (enableUser n w)) = usageFile w"
proof (intro conjI impI)
  show "usageFile (snd (enableUser n w)) = usageFile w" by (rule enableUser_usageFile)
next
  assume a: "usageFile w = Some st \<and> st k = None
      \<and> (\<forall>us. usersFile w = Some us \<longrightarrow> (\<forall>i<length us. 0 \<le> queryRawBytes (statKeyOf (us ! i)) (q i)))"
  let ?w' = "aggregate now stamp pd q sched w"
  from aggregate_usageFile_cases [of now stamp pd q sched w]
  consider "usageFile ?w' = usageFile w"
    | us where "usersFile w = Some us" "usageFile ?w' = Some (store (accState q sched (loaded us) w))"
    by blast
  then show "\<exists>st'. usageFile ?w' = Some st'
            \<and> (st' k = None \<or> (\<exists>e'. st' k = Some e' \<and> 0 \<le> accumBytes e'))"
  proof cases
    case 1
    then show ?thesis using a by auto
  next
    case 2
    have raws: "\<forall>i<length (loaded us). 0 \<le> rawOf q (loaded us) i"
      using a 2(1) by (simp add: loaded_rawOf) (simp add: rawOf_def)
    have rd: "readUsageOrEmpty w k = None"
      using a by (simp add: readUsageOrEmpty_def readUsage_def)
    from accState_first [OF raws rd] 2(2) show ?thesis by auto
  qed
next

  assume a: "usageFile w = Some st \<and> st k = Some e
      \<and> (\<forall>us. usersFile w = Some us \<longrightarrow> (\<forall>i<length us. 0 \<le> queryRawBytes (statKeyOf (us ! i)) (q i)))"
  let ?w' = "aggregate now stamp pd q sched w"
  from aggregate_usageFile_cases [of now stamp pd q sched w]
  consider "usageFile ?w' = usageFile w"
    | us where "usersFile w = Some us" "usageFile ?w' = Some (store (accState q sched (loaded us) w))"
    by blast
  then show "\<exists>st' e'. usageFile ?w' = Some st' \<and> st' k = Some e' \<and> accumBytes e \<le> accumBytes e'"
  proof cases
    case 1
    then show ?thesis using a by auto
  next
    case 2
    have raws: "\<forall>i<length (loaded us). 0 \<le> rawOf q (loaded us) i"
      using a 2(1) by (simp add: loaded_rawOf) (simp add: rawOf_def)
    have rd: "readUsageOrEmpty w k = Some e"
      using a by (simp add: readUsageOrEmpty_def readUsage_def)
    from accState_mono [OF raws rd] 2(2) show ?thesis by auto
  qed
next
  assume b: "usageFile w = Some st \<and> usageWritable w \<and> usersWritable w \<and> usersFile w = Some us
        \<and> findUserIndex n us = Some i \<and> st (uuid (us ! i)) = Some e"
  then show "fst (resetQuota n w) = Ok200"
    by (simp add: resetQuota_def readUsers_def readUsageOrEmpty_def readUsage_def writeUsage_def
          writeUsers_def Let_def)
  from b show "usageFile (snd (resetQuota n w))
            = Some (st(uuid (us ! i) \<mapsto> \<lparr>accumBytes = 0, lastRawBytes = 0\<rparr>))"
    by (simp add: resetQuota_def readUsers_def readUsageOrEmpty_def readUsage_def writeUsage_def
          writeUsers_def Let_def)
qed

text \<open>
  A counter reset (700 to 100) on an existing entry, a first observation on a fresh store,
  and a reset-quota request.
\<close>

theorem accumBytes_never_decreases_witness:
  "(\<exists>st' e'. usageFile (aggregate 5 6 (\<lambda>s. None) (\<lambda>i. uplink ''alice'' 100) [0] w_quota) = Some st'
        \<and> st' ''u-1'' = Some e' \<and> 1073741000 \<le> accumBytes e')
   \<and> (\<exists>st'. usageFile (aggregate 5 6 (\<lambda>s. None) (\<lambda>i. uplink ''alice'' 100) [0] w_fresh) = Some st'
        \<and> (st' ''u-1'' = None \<or> (\<exists>e'. st' ''u-1'' = Some e' \<and> 0 \<le> accumBytes e')))
   \<and> fst (resetQuota ''alice'' w_quota) = Ok200
   \<and> usageFile (snd (resetQuota ''alice'' w_quota))
        = Some ([''u-1'' \<mapsto> \<lparr>accumBytes = 1073741000, lastRawBytes = 700\<rparr>]
                 (''u-1'' \<mapsto> \<lparr>accumBytes = 0, lastRawBytes = 0\<rparr>))"
proof -
  let ?q = "\<lambda>i::nat. uplink ''alice'' 100"
  let ?st = "[''u-1'' \<mapsto> \<lparr>accumBytes = 1073741000, lastRawBytes = 700\<rparr>]"
  have raw: "queryRawBytes (statKeyOf alice) (uplink ''alice'' 100) = 100"
    by (simp add: alice_def uplink_def statKeyOf_def js_or_def queryRawBytes_def
          statPrefix_def startsWith_def)
  have a: "usageFile w_quota = Some ?st \<and> ?st ''u-1'' = Some \<lparr>accumBytes = 1073741000, lastRawBytes = 700\<rparr>
      \<and> (\<forall>us. usersFile w_quota = Some us \<longrightarrow> (\<forall>i<length us. 0 \<le> queryRawBytes (statKeyOf (us ! i)) (?q i)))"
    by (auto simp: w_quota_def raw)
  have b: "usageFile w_fresh = Some Map.empty \<and> Map.empty ''u-1'' = None
      \<and> (\<forall>us. usersFile w_fresh = Some us \<longrightarrow> (\<forall>i<length us. 0 \<le> queryRawBytes (statKeyOf (us ! i)) (?q i)))"
    by (auto simp: w_fresh_def raw)
  have c: "usageFile w_quota = Some ?st \<and> usageWritable w_quota \<and> usersWritable w_quota
        \<and> usersFile w_quota = Some [alice]
        \<and> findUserIndex ''alice'' [alice] = Some 0
        \<and> ?st (uuid ([alice] ! 0)) = Some \<lparr>accumBytes = 1073741000, lastRawBytes = 700\<rparr>"
    by (simp add: w_quota_def alice_def)
  have uu: "uuid ([alice] ! 0) = ''u-1''" by (simp add: alice_def)
  show ?thesis
    using accumBytes_never_decreases
            [of w_quota ?st "''u-1''" "\<lparr>accumBytes = 1073741000, lastRawBytes = 700\<rparr>" ?q
                5 6 "\<lambda>s. None" "[0]" "[alice]" "''alice''" 0] a c
          accumBytes_never_decreases
            [of w_fresh Map.empty "''u-1''" "\<lparr>accumBytes = 0, lastRawBytes = 0\<rparr>" ?q
                5 6 "\<lambda>s. None" "[0]" "[alice]" "''alice''" 0] b
    unfolding uu by simp
qed

subsection \<open>C5: failures reading the stores\<close>

text \<open>
  C5, as amended. The claim says that a failure reading either store aborts the cycle. The
  code catches the failure of the accumulator store and goes on with an empty store (line
  119), so the statement that holds is: if reading or parsing the user store fails, the
  cycle aborts as a whole and the state is exactly what it was (no entry modified, no file
  written, the previous snapshot in place); if only the accumulator store cannot be read,
  the cycle does not abort: it reconciles every user against an empty accumulator and
  publishes a new snapshot.
\<close>

theorem user_store_failure_aborts:
  "(\<not> isAggregating w \<and> usersFile w = None \<longrightarrow> aggregate now stamp pd q sched w = w)
   \<and> (\<not> isAggregating w \<and> usersFile w = Some us \<and> usersWritable w \<and> usageFile w = None
      \<longrightarrow> cacheStamp (aggregate now stamp pd q sched w) = stamp
        \<and> cachedEnriched (aggregate now stamp pd q sched w)
            = map (enrich now pd)
                (users (fold (worker_step q) sched
                   \<lparr>store = Map.empty, users = loaded us, storeChanged = False\<rparr>)))"
proof (intro conjI impI)
  assume "\<not> isAggregating w \<and> usersFile w = None"
  then show "aggregate now stamp pd q sched w = w" by (simp add: aggregate_abort)
next
  assume a: "\<not> isAggregating w \<and> usersFile w = Some us \<and> usersWritable w \<and> usageFile w = None"
  then have ok: "aggregate now stamp pd q sched w = w
     \<lparr>usersFile := Some (if usersWritable w
                          then flagsOf (snapshotOf now pd q sched us w) (loaded us)
                          else loaded us),
        usageFile := (if storeChanged (accState q sched (loaded us) w) \<and> usageWritable w
                      then Some (store (accState q sched (loaded us) w)) else usageFile w),
        writeLog := (if flagsChanged (snapshotOf now pd q sched us w) (loaded us) \<and> usersWritable w
                     then [USERS_FILE] else [])
                    @ (if list_ex lacksDefaults (loaded us) then [USERS_FILE] else [])
                    @ (if storeChanged (accState q sched (loaded us) w) \<and> usageWritable w
                       then [USAGE_FILE] else [])
                    @ (if list_ex lacksDefaults us then [USERS_FILE] else [])
                    @ writeLog w,
        cachedEnriched := snapshotOf now pd q sched us w,
        cacheStamp := stamp,
        isAggregating := False\<rparr>"
    by (intro aggregate_ok) simp_all
  show "cacheStamp (aggregate now stamp pd q sched w) = stamp" unfolding ok by simp
  have "readUsageOrEmpty w = Map.empty"
    using a by (simp add: readUsageOrEmpty_def readUsage_def)
  then show "cachedEnriched (aggregate now stamp pd q sched w)
            = map (enrich now pd)
                (users (fold (worker_step q) sched
                   \<lparr>store = Map.empty, users = loaded us, storeChanged = False\<rparr>))"
    unfolding ok by (simp add: snapshotOf_def accState_def)
qed

text \<open>
  One world without a readable user store, one without a readable accumulator store.
\<close>

theorem user_store_failure_aborts_witness:
  "aggregate 5 6 (\<lambda>s. None) (\<lambda>i. uplink ''alice'' 900) [0] w_nousers = w_nousers
   \<and> cacheStamp (aggregate 5 6 (\<lambda>s. None) (\<lambda>i. uplink ''alice'' 500) [0] w_nostore) = 6
   \<and> map usageAccumBytes
        (cachedEnriched (aggregate 5 6 (\<lambda>s. None) (\<lambda>i. uplink ''alice'' 500) [0] w_nostore))
       = [Some 500]"
proof -
  have a: "\<not> isAggregating w_nousers \<and> usersFile w_nousers = None"
    by (simp add: w_nousers_def)
  have b: "\<not> isAggregating w_nostore \<and> usersFile w_nostore = Some [alice]
           \<and> usersWritable w_nostore \<and> usageFile w_nostore = None"
    by (simp add: w_nostore_def)
  have l: "loaded [alice] = [alice]"
    by (simp add: loaded_def maxIdOf_def alice_def)
  have run: "map usageAccumBytes (map (enrich 5 (\<lambda>s. None))
                (users (fold (worker_step (\<lambda>i. uplink ''alice'' 500)) [0]
                   \<lparr>store = Map.empty, users = [alice], storeChanged = False\<rparr>))) = [Some 500]"
    by (simp add: worker_step_def reconcile_def query_defs alice_def)
  show ?thesis
    using user_store_failure_aborts
            [of w_nousers 5 6 "\<lambda>s. None" "\<lambda>i. uplink ''alice'' 900" "[0]" "[alice]"] a
          user_store_failure_aborts
            [of w_nostore 5 6 "\<lambda>s. None" "\<lambda>i. uplink ''alice'' 500" "[0]" "[alice]"] b
          run
    by (simp add: l)
qed

text \<open>
  The claim as stated fails: with an unreadable accumulator store the cycle writes that
  store, with a fresh entry for the user, and replaces the snapshot.
\<close>

theorem unreadable_accumulator_counterexample:
  "\<not> isAggregating w_nostore \<and> usageFile w_nostore = None \<and> cachedEnriched w_nostore = []
   \<and> writeLog w_nostore = []
   \<and> writeLog (aggregate 5 6 (\<lambda>s. None) (\<lambda>i. uplink ''alice'' 500) [0] w_nostore) = [USAGE_FILE]
   \<and> map usageAccumBytes
        (cachedEnriched (aggregate 5 6 (\<lambda>s. None) (\<lambda>i. uplink ''alice'' 500) [0] w_nostore))
       = [Some 500]
   \<and> (case usageFile (aggregate 5 6 (\<lambda>s. None) (\<lambda>i. uplink ''alice'' 500) [0] w_nostore) of
         None \<Rightarrow> None | Some st \<Rightarrow> st ''u-1'')
       = Some \<lparr>accumBytes = 500, lastRawBytes = 500\<rparr>"
  by (simp add: model_defs w_nostore_def alice_def uplink_def)

subsection \<open>C6: a failed stats query\<close>

text \<open>
  C6. When the stats query of user \<open>a\<close> fails, that user is reconciled with \<open>rawBytes = 0\<close>,
  which adds nothing to an entry whose \<open>lastRawBytes\<close> is not negative and gives 0 to a key
  without entry; every other user is reconciled with the reading of their own query; the
  cycle completes and publishes a snapshot with one element per user. The users' uuids are
  distinct and the user store is writable.
\<close>

theorem failed_query_is_isolated:
  assumes "\<not> isAggregating w" and "usersFile w = Some us" and "usersWritable w"
    and "valid_sched sched (length us)" and "distinct (map uuid us)"
    and "a < length us" and "q a = QueryFailed"
  shows "cacheStamp (aggregate now stamp pd q sched w) = stamp
       \<and> map uuid (cachedEnriched (aggregate now stamp pd q sched w)) = map uuid us
       \<and> usageAccumBytes (cachedEnriched (aggregate now stamp pd q sched w) ! a)
           = Some (accumBytes (fst (reconcile (readUsageOrEmpty w (uuid (us ! a))) 0)))
       \<and> (\<forall>e. readUsageOrEmpty w (uuid (us ! a)) = Some e \<and> 0 \<le> lastRawBytes e
             \<longrightarrow> usageAccumBytes (cachedEnriched (aggregate now stamp pd q sched w) ! a)
                   = Some (accumBytes e))
       \<and> (readUsageOrEmpty w (uuid (us ! a)) = None
             \<longrightarrow> usageAccumBytes (cachedEnriched (aggregate now stamp pd q sched w) ! a) = Some 0)
       \<and> (\<forall>b<length us. b \<noteq> a \<longrightarrow>
             usageAccumBytes (cachedEnriched (aggregate now stamp pd q sched w) ! b)
               = Some (accumBytes (fst (reconcile (readUsageOrEmpty w (uuid (us ! b)))
                                          (queryRawBytes (statKeyOf (us ! b)) (q b))))))
       \<and> (usageWritable w \<longrightarrow>
             readUsageOrEmpty (aggregate now stamp pd q sched w) (uuid (us ! a))
               = Some (fst (reconcile (readUsageOrEmpty w (uuid (us ! a))) 0))
             \<and> (\<forall>b<length us. b \<noteq> a \<longrightarrow>
                  readUsageOrEmpty (aggregate now stamp pd q sched w) (uuid (us ! b))
                    = Some (fst (reconcile (readUsageOrEmpty w (uuid (us ! b)))
                                   (queryRawBytes (statKeyOf (us ! b)) (q b))))))"
proof -
  let ?w' = "aggregate now stamp pd q sched w"
  have ok: "usersWritable w \<or> \<not> list_ex lacksDefaults us" using assms(3) by simp
  have raw0: "queryRawBytes (statKeyOf (us ! a)) (q a) = 0"
    using assms(7) by (simp add: queryRawBytes_def)
  have snap: "usageAccumBytes (cachedEnriched ?w' ! b)
      = Some (accumBytes (fst (reconcile (readUsageOrEmpty w (uuid (us ! b)))
                                 (queryRawBytes (statKeyOf (us ! b)) (q b)))))"
    if "b < length us" for b
    by (rule cycle_entry(1) [OF assms(1,2) ok assms(4,5) that])
  have pers: "readUsageOrEmpty ?w' (uuid (us ! b))
      = Some (fst (reconcile (readUsageOrEmpty w (uuid (us ! b)))
                     (queryRawBytes (statKeyOf (us ! b)) (q b))))"
    if "b < length us" "usageWritable w" for b
    by (rule cycle_entry(2) [OF assms(1,2) ok assms(4,5) that])
  have sa: "usageAccumBytes (cachedEnriched ?w' ! a)
           = Some (accumBytes (fst (reconcile (readUsageOrEmpty w (uuid (us ! a))) 0)))"
    using snap [OF assms(6)] raw0 by simp
  have c1: "cacheStamp ?w' = stamp"
    and c2: "map uuid (cachedEnriched ?w') = map uuid us"
    by (simp_all add: aggregate_ok [OF assms(1,2) ok] snapshot_uuids)
  have c4: "\<forall>e. readUsageOrEmpty w (uuid (us ! a)) = Some e \<and> 0 \<le> lastRawBytes e
             \<longrightarrow> usageAccumBytes (cachedEnriched ?w' ! a) = Some (accumBytes e)"
    using sa by (auto simp: reconcile_zero)
  have c5: "readUsageOrEmpty w (uuid (us ! a)) = None
             \<longrightarrow> usageAccumBytes (cachedEnriched ?w' ! a) = Some 0"
    using sa by (auto simp: reconcile_zero)
  have c7: "usageWritable w \<longrightarrow>
             readUsageOrEmpty ?w' (uuid (us ! a))
               = Some (fst (reconcile (readUsageOrEmpty w (uuid (us ! a))) 0))
             \<and> (\<forall>b<length us. b \<noteq> a \<longrightarrow>
                  readUsageOrEmpty ?w' (uuid (us ! b))
                    = Some (fst (reconcile (readUsageOrEmpty w (uuid (us ! b)))
                                   (queryRawBytes (statKeyOf (us ! b)) (q b)))))"
    using pers [OF assms(6)] pers raw0 by simp
  show ?thesis
    using c1 c2 sa c4 c5 snap c7 by blast
qed

text \<open>
  The first user's query fails, the second reads 450 after 300; the second worker returns first.
\<close>

theorem failed_query_is_isolated_witness:
  "cacheStamp (aggregate 5 6 (\<lambda>s. None) q_bob_only [1, 0] w_two) = 6
   \<and> map uuid (cachedEnriched (aggregate 5 6 (\<lambda>s. None) q_bob_only [1, 0] w_two))
        = [''u-1'', ''u-2'']
   \<and> usageAccumBytes (cachedEnriched (aggregate 5 6 (\<lambda>s. None) q_bob_only [1, 0] w_two) ! 0)
        = Some 200
   \<and> usageAccumBytes (cachedEnriched (aggregate 5 6 (\<lambda>s. None) q_bob_only [1, 0] w_two) ! 1)
        = Some 200
   \<and> readUsageOrEmpty (aggregate 5 6 (\<lambda>s. None) q_bob_only [1, 0] w_two) ''u-1''
        = Some \<lparr>accumBytes = 200, lastRawBytes = 0\<rparr>
   \<and> readUsageOrEmpty (aggregate 5 6 (\<lambda>s. None) q_bob_only [1, 0] w_two) ''u-2''
        = Some \<lparr>accumBytes = 200, lastRawBytes = 450\<rparr>
   \<and> usageAccumBytes
        (cachedEnriched (aggregate 5 6 (\<lambda>s. None) (\<lambda>i. QueryFailed) [0] w_fresh) ! 0)
        = Some 0"
proof -
  let ?w' = "aggregate 5 6 (\<lambda>s. None) q_bob_only [1, 0] w_two"
  have h1: "\<not> isAggregating w_two" and h2: "usersFile w_two = Some [alice, bob]"
    and h3: "usersWritable w_two" and wr: "usageWritable w_two"
    by (simp_all add: w_two_def)
  have h4: "valid_sched [1, 0] (length [alice, bob])" by (simp add: valid_sched_def)
  have h5: "distinct (map uuid [alice, bob])" by (simp add: alice_def bob_def)
  have h6: "(0::nat) < length [alice, bob]" by simp
  have h7: "q_bob_only 0 = QueryFailed" by (simp add: q_bob_only_def)
  have ra: "readUsageOrEmpty w_two (uuid ([alice, bob] ! 0))
              = Some \<lparr>accumBytes = 200, lastRawBytes = 700\<rparr>"
    and rb: "readUsageOrEmpty w_two (uuid ([alice, bob] ! 1))
              = Some \<lparr>accumBytes = 50, lastRawBytes = 300\<rparr>"
    by (simp_all add: w_two_def readUsageOrEmpty_def readUsage_def alice_def bob_def)
  have qb: "queryRawBytes (statKeyOf ([alice, bob] ! 1)) (q_bob_only 1) = 450"
    by (simp add: q_bob_only_def query_defs bob_def)
  have ua: "uuid ([alice, bob] ! 0) = ''u-1''" and ub: "uuid ([alice, bob] ! 1) = ''u-2''"
    by (simp_all add: alice_def bob_def)
  note t = failed_query_is_isolated
             [where w = w_two and us = "[alice, bob]" and sched = "[1, 0]" and a = 0
                and q = q_bob_only and now = 5 and stamp = 6 and pd = "\<lambda>s. None",
              OF h1 h2 h3 h4 h5 h6 h7]
  have c1: "cacheStamp ?w' = 6" using t by blast
  have c2: "map uuid (cachedEnriched ?w') = [''u-1'', ''u-2'']"
    using t by (simp add: alice_def bob_def)
  have t4: "readUsageOrEmpty w_two (uuid ([alice, bob] ! 0))
               = Some \<lparr>accumBytes = 200, lastRawBytes = 700\<rparr>
             \<and> 0 \<le> lastRawBytes \<lparr>accumBytes = 200, lastRawBytes = 700\<rparr>
             \<longrightarrow> usageAccumBytes (cachedEnriched ?w' ! 0)
                   = Some (accumBytes \<lparr>accumBytes = 200, lastRawBytes = 700\<rparr>)"
    using t by blast
  have c3: "usageAccumBytes (cachedEnriched ?w' ! 0) = Some 200"
    using t4 ra by simp
  have t6: "(1::nat) < length [alice, bob] \<longrightarrow> (1::nat) \<noteq> 0 \<longrightarrow>
             usageAccumBytes (cachedEnriched ?w' ! 1)
               = Some (accumBytes (fst (reconcile (readUsageOrEmpty w_two (uuid ([alice, bob] ! 1)))
                                          (queryRawBytes (statKeyOf ([alice, bob] ! 1)) (q_bob_only 1)))))"
    using t by blast
  have c4: "usageAccumBytes (cachedEnriched ?w' ! 1) = Some 200"
    using t6 rb qb by (simp add: reconcile_def)
  have t7: "readUsageOrEmpty ?w' (uuid ([alice, bob] ! 0))
               = Some (fst (reconcile (readUsageOrEmpty w_two (uuid ([alice, bob] ! 0))) 0))"
    and t8: "(1::nat) < length [alice, bob] \<longrightarrow> (1::nat) \<noteq> 0 \<longrightarrow>
             readUsageOrEmpty ?w' (uuid ([alice, bob] ! 1))
               = Some (fst (reconcile (readUsageOrEmpty w_two (uuid ([alice, bob] ! 1)))
                              (queryRawBytes (statKeyOf ([alice, bob] ! 1)) (q_bob_only 1))))"
    using t wr by blast+
  have c5: "readUsageOrEmpty ?w' ''u-1'' = Some \<lparr>accumBytes = 200, lastRawBytes = 0\<rparr>"
    using t7 ra ua by (simp add: reconcile_def)
  have c6: "readUsageOrEmpty ?w' ''u-2'' = Some \<lparr>accumBytes = 200, lastRawBytes = 450\<rparr>"
    using t8 rb qb ub by (simp add: reconcile_def)
  have g1: "\<not> isAggregating w_fresh" and g2: "usersFile w_fresh = Some [alice]"
    and g3: "usersWritable w_fresh"
    by (simp_all add: w_fresh_def)
  have g4: "valid_sched [0] (length [alice])" by (simp add: valid_sched_def)
  have g5: "distinct (map uuid [alice])" and g6: "(0::nat) < length [alice]" by simp_all
  have none: "readUsageOrEmpty w_fresh (uuid ([alice] ! 0)) = None"
    by (simp add: w_fresh_def readUsageOrEmpty_def readUsage_def)
  note u = failed_query_is_isolated
             [where w = w_fresh and us = "[alice]" and sched = "[0]" and a = 0
                and q = "\<lambda>i. QueryFailed" and now = 5 and stamp = 6 and pd = "\<lambda>s. None",
              OF g1 g2 g3 g4 g5 g6 refl]
  have u5: "readUsageOrEmpty w_fresh (uuid ([alice] ! 0)) = None
             \<longrightarrow> usageAccumBytes
                   (cachedEnriched (aggregate 5 6 (\<lambda>s. None) (\<lambda>i. QueryFailed) [0] w_fresh) ! 0)
                 = Some 0"
    using u by blast
  have c7: "usageAccumBytes
              (cachedEnriched (aggregate 5 6 (\<lambda>s. None) (\<lambda>i. QueryFailed) [0] w_fresh) ! 0)
            = Some 0"
    using u5 none by simp
  show ?thesis using c1 c2 c3 c4 c5 c6 c7 by simp
qed

subsection \<open>C7: one cycle at a time\<close>

text \<open>
  C7. A request for a cycle while the in-flight flag is set returns the state as it is:
  nothing is read or written, and no cycle is added to those in flight. In any interleaving
  of requests, queries settling (with the end of the cycle at the last one) and endpoint
  calls, starting with the flag clear, at most one cycle is in flight.
\<close>

theorem request_in_flight_dropped:
  "(isAggregating w \<longrightarrow>
      aggregate now stamp pd q sched w = w \<and> sys_step pd (Request now stamp) (w, fs) = (w, fs))
   \<and> (\<not> isAggregating w0 \<longrightarrow> length (snd (fold (sys_step pd) evs (w0, []))) \<le> 1)"
proof (intro conjI impI)
  assume "isAggregating w"
  then show "aggregate now stamp pd q sched w = w" by (rule aggregate_busy)
  from \<open>isAggregating w\<close> show "sys_step pd (Request now stamp) (w, fs) = (w, fs)"
    by (simp add: aggregate_begin_busy)
next
  assume "\<not> isAggregating w0"
  then have "in_flight_ok (w0, [])" by (simp add: in_flight_ok_def)
  then have "in_flight_ok (fold (sys_step pd) evs (w0, []))" by (rule fold_sys_step_inv)
  then show "length (snd (fold (sys_step pd) evs (w0, []))) \<le> 1" by (simp add: in_flight_ok_def)
qed

text \<open>
  A request on a busy state, and requests before, during and after a cycle from an idle
  one.
\<close>

theorem request_in_flight_dropped_witness:
  "aggregate 5 6 (\<lambda>s. None) (\<lambda>i. uplink ''alice'' 900) [0] w_busy = w_busy
   \<and> sys_step (\<lambda>s. None) (Request 5 6) (w_busy, []) = (w_busy, [])
   \<and> length (snd (fold (sys_step (\<lambda>s. None))
                     [Request 5 6, Request 7 8, Enable ''alice'', Request 9 10,
                      Settled 0 0 (uplink ''alice'' 900) 11 12, Request 13 14, Request 15 16]
                     (w_quota, []))) \<le> 1"
proof -
  have a: "isAggregating w_busy" by (simp add: w_busy_def)
  have b: "\<not> isAggregating w_quota" by (simp add: w_quota_def)
  show ?thesis
    using request_in_flight_dropped
            [of w_busy 5 6 "\<lambda>s. None" "\<lambda>i. uplink ''alice'' 900" "[0]" "[]" w_quota
                "[Request 5 6, Request 7 8, Enable ''alice'', Request 9 10,
                  Settled 0 0 (uplink ''alice'' 900) 11 12, Request 13 14, Request 15 16]"] a b
    by blast
qed

subsection \<open>C8: equal readings write nothing\<close>

text \<open>
  C8. If every user's key has an entry and every reading equals the stored
  \<open>lastRawBytes\<close>, the cycle leaves the accumulator store as it is and does not write it.
\<close>

theorem equal_readings_write_nothing:
  assumes "usersFile w = Some us" and "usageFile w = Some st"
    and "\<forall>i<length us. \<exists>e. st (uuid (us ! i)) = Some e
           \<and> queryRawBytes (statKeyOf (us ! i)) (q i) = lastRawBytes e"
  shows "usageFile (aggregate now stamp pd q sched w) = Some st
       \<and> usageWrites (aggregate now stamp pd q sched w) = usageWrites w"
proof (cases "\<not> isAggregating w \<and> (usersWritable w \<or> \<not> list_ex lacksDefaults us)")
  case True
  have rd: "readUsageOrEmpty w = st"
    using assms(2) by (simp add: readUsageOrEmpty_def readUsage_def)
  have "\<forall>i<length (loaded us). \<exists>e. readUsageOrEmpty w (uuid (loaded us ! i)) = Some e
             \<and> rawOf q (loaded us) i = lastRawBytes e"
    using assms(3) by (simp add: rd loaded_nth_fields loaded_rawOf) (simp add: rawOf_def)
  then have "\<not> storeChanged (accState q sched (loaded us) w)"
    using accState_noop by blast
  then show ?thesis
    using True assms(1,2) by (simp add: aggregate_ok [of w us] usageWrites_def)
next
  case False
  then have "aggregate now stamp pd q sched w = w"
    using assms(1) by (cases "isAggregating w") (auto simp: aggregate_busy aggregate_abort)
  then show ?thesis using assms(2) by simp
qed

text \<open>
  The stored reading 700 observed again.
\<close>

theorem equal_readings_write_nothing_witness:
  "usageFile (aggregate 5 6 (\<lambda>s. None) (\<lambda>i. uplink ''alice'' 700) [0] w_quota)
     = Some [''u-1'' \<mapsto> \<lparr>accumBytes = 1073741000, lastRawBytes = 700\<rparr>]
   \<and> usageWrites (aggregate 5 6 (\<lambda>s. None) (\<lambda>i. uplink ''alice'' 700) [0] w_quota) = 0"
proof -
  let ?st = "[''u-1'' \<mapsto> \<lparr>accumBytes = 1073741000, lastRawBytes = 700\<rparr>]"
  have h1: "usersFile w_quota = Some [alice]" and h2: "usageFile w_quota = Some ?st"
    by (simp_all add: w_quota_def)
  have h3: "\<forall>i<length [alice]. \<exists>e. ?st (uuid ([alice] ! i)) = Some e
           \<and> queryRawBytes (statKeyOf ([alice] ! i)) (uplink ''alice'' 700) = lastRawBytes e"
    by (simp add: alice_def query_defs)
  have z: "usageWrites w_quota = 0" by (simp add: usageWrites_def w_quota_def)
  show ?thesis
    using equal_readings_write_nothing
            [OF h1 h2, of "\<lambda>i. uplink ''alice'' 700" 5 6 "\<lambda>s. None" "[0]"] h3 z
    by simp
qed

subsection \<open>C9: what the cycle writes back to the user store\<close>

text \<open>
  C9, as amended. The claim says that the cycle changes at most the \<open>enabled\<close> field and
  writes the user store only when a flag changed. Loading the users (\<open>baseLoadUsers\<close>) also
  fills in a missing \<open>id\<close> and a missing \<open>statKey\<close> and writes the store when it did. The
  statement that holds: the cycle keeps the number and the order of the records. When a
  cycle is already in flight, or the user store cannot be written, the records stay as
  they are. Otherwise each record keeps every field but three: \<open>enabled\<close>; an \<open>id\<close> that was
  missing, which becomes the largest \<open>id\<close> in the file (0 when there is none) plus the
  number of records without \<open>id\<close> up to and including this one; and a \<open>statKey\<close> that was
  empty, which becomes \<open>displayName\<close>, else \<open>username\<close>, else \<open>uuid\<close>. The user store is
  written only when some user's \<open>enabled\<close> flag changed or some record lacked an \<open>id\<close> or a
  \<open>statKey\<close>.
\<close>

theorem cycle_user_store_frame:
  assumes "usersFile w = Some us"
  shows "\<exists>us'. usersFile (aggregate now stamp pd q sched w) = Some us'
           \<and> length us' = length us
           \<and> (if isAggregating w \<or> \<not> usersWritable w then us' = us
               else \<forall>j<length us.
                 us' ! j
                   = (us ! j)\<lparr>user_id :=
                        (if user_id (us ! j) = None
                         then Some (maxIdOf us
                                    + int (length (filter (\<lambda>u. user_id u = None)
                                                     (take (Suc j) us))))
                         else user_id (us ! j)),
                      statKey :=
                        (if statKey (us ! j) \<noteq> [] then statKey (us ! j)
                         else if displayName (us ! j) \<noteq> [] then displayName (us ! j)
                         else if username (us ! j) \<noteq> [] then username (us ! j)
                         else uuid (us ! j)),
                      enabled := enabled (us' ! j)\<rparr>)
           \<and> (usersWrites (aggregate now stamp pd q sched w) \<noteq> usersWrites w
                \<longrightarrow> (\<exists>j<length us. enabled (us' ! j) \<noteq> enabled (us ! j)
                        \<or> user_id (us ! j) = None \<or> statKey (us ! j) = []))"
proof (cases "\<not> isAggregating w \<and> (usersWritable w \<or> \<not> list_ex lacksDefaults us)")
  case False
  then have same: "aggregate now stamp pd q sched w = w"
    using assms by (cases "isAggregating w") (auto simp: aggregate_busy aggregate_abort)
  from False have c: "isAggregating w \<or> \<not> usersWritable w" by blast
  show ?thesis unfolding same using assms c by simp
next
  case True
  let ?enr = "snapshotOf now pd q sched us w"
  let ?us' = "(if usersWritable w then flagsOf ?enr (loaded us) else loaded us)"
  let ?w' = "aggregate now stamp pd q sched w"
  have ok: "?w' = w
     \<lparr>usersFile := Some ?us',
        usageFile := (if storeChanged (accState q sched (loaded us) w) \<and> usageWritable w
                      then Some (store (accState q sched (loaded us) w)) else usageFile w),
        writeLog := (if flagsChanged ?enr (loaded us) \<and> usersWritable w
                     then [USERS_FILE] else [])
                    @ (if list_ex lacksDefaults (loaded us) then [USERS_FILE] else [])
                    @ (if storeChanged (accState q sched (loaded us) w) \<and> usageWritable w
                       then [USAGE_FILE] else [])
                    @ (if list_ex lacksDefaults us then [USERS_FILE] else [])
                    @ writeLog w,
        cachedEnriched := ?enr,
        cacheStamp := stamp,
        isAggregating := False\<rparr>"
    using True assms by (intro aggregate_ok) simp_all
  have fileq: "usersFile ?w' = Some ?us'" unfolding ok by simp
  have len: "length ?us' = length us" by simp
  have idle: "?us' = us" if nw: "\<not> usersWritable w"
  proof -
    from True nw have "\<not> list_ex lacksDefaults us" by blast
    then show ?thesis using nw by (simp add: loaded_idle)
  qed
  have shape: "?us' ! j
                   = (us ! j)\<lparr>user_id :=
                        (if user_id (us ! j) = None
                         then Some (maxIdOf us
                                    + int (length (filter (\<lambda>u. user_id u = None)
                                                     (take (Suc j) us))))
                         else user_id (us ! j)),
                      statKey :=
                        (if statKey (us ! j) \<noteq> [] then statKey (us ! j)
                         else if displayName (us ! j) \<noteq> [] then displayName (us ! j)
                         else if username (us ! j) \<noteq> [] then username (us ! j)
                         else uuid (us ! j)),
                      enabled := enabled (?us' ! j)\<rparr>"
    if j: "j < length us" and wr: "usersWritable w" for j
  proof -
    have "?us' ! j = (loaded us ! j)\<lparr>enabled := enabled (?us' ! j)\<rparr>"
      using flagsOf_shape [of j "loaded us" ?enr] j wr by simp
    then show ?thesis unfolding loaded_nth_id [OF j] .
  qed
  have frame: "(if isAggregating w \<or> \<not> usersWritable w then ?us' = us
               else \<forall>j<length us.
                 ?us' ! j
                   = (us ! j)\<lparr>user_id :=
                        (if user_id (us ! j) = None
                         then Some (maxIdOf us
                                    + int (length (filter (\<lambda>u. user_id u = None)
                                                     (take (Suc j) us))))
                         else user_id (us ! j)),
                      statKey :=
                        (if statKey (us ! j) \<noteq> [] then statKey (us ! j)
                         else if displayName (us ! j) \<noteq> [] then displayName (us ! j)
                         else if username (us ! j) \<noteq> [] then username (us ! j)
                         else uuid (us ! j)),
                      enabled := enabled (?us' ! j)\<rparr>)"
  proof (cases "usersWritable w")
    case False
    then show ?thesis using idle by simp
  next
    case wr: True
    have nb: "\<not> isAggregating w" using True by blast
    show ?thesis using shape [OF _ wr] nb wr by simp
  qed
  have writes: "\<exists>j<length us. enabled (?us' ! j) \<noteq> enabled (us ! j)
                        \<or> user_id (us ! j) = None \<or> statKey (us ! j) = []"
    if diff: "usersWrites ?w' \<noteq> usersWrites w"
  proof -
    from diff have "USERS_FILE \<in> set (if flagsChanged ?enr (loaded us) \<and> usersWritable w
                     then [USERS_FILE] else [])
        \<or> USERS_FILE \<in> set (if list_ex lacksDefaults (loaded us) then [USERS_FILE] else [])
        \<or> USERS_FILE \<in> set (if storeChanged (accState q sched (loaded us) w) \<and> usageWritable w
                       then [USAGE_FILE] else [])
        \<or> USERS_FILE \<in> set (if list_ex lacksDefaults us then [USERS_FILE] else [])"
      unfolding usersWrites_def ok by (intro filter_users_append) simp
    then consider "flagsChanged ?enr (loaded us)" "usersWritable w" | "list_ex lacksDefaults us"
      using lacks_loaded [of us] by (auto split: if_splits)
    then show ?thesis
    proof cases
      case 1
      from flagsChanged_some [OF 1(1)] obtain j where
        j: "j < length us" "enabled (flagsOf ?enr (loaded us) ! j) \<noteq> enabled (loaded us ! j)"
        by auto
      then show ?thesis using 1(2) by (auto simp: loaded_nth_fields)
    next
      case 2
      then show ?thesis using lacks_some by blast
    qed
  qed
  show ?thesis
  proof (rule exI [of _ ?us'], intro conjI)
    show "usersFile ?w' = Some ?us'" by (rule fileq)
    show "length ?us' = length us" by (rule len)
    show "(if isAggregating w \<or> \<not> usersWritable w then ?us' = us
               else \<forall>j<length us.
                 ?us' ! j
                   = (us ! j)\<lparr>user_id :=
                        (if user_id (us ! j) = None
                         then Some (maxIdOf us
                                    + int (length (filter (\<lambda>u. user_id u = None)
                                                     (take (Suc j) us))))
                         else user_id (us ! j)),
                      statKey :=
                        (if statKey (us ! j) \<noteq> [] then statKey (us ! j)
                         else if displayName (us ! j) \<noteq> [] then displayName (us ! j)
                         else if username (us ! j) \<noteq> [] then username (us ! j)
                         else uuid (us ! j)),
                      enabled := enabled (?us' ! j)\<rparr>)" by (rule frame)
    show "usersWrites ?w' \<noteq> usersWrites w
                \<longrightarrow> (\<exists>j<length us. enabled (?us' ! j) \<noteq> enabled (us ! j)
                        \<or> user_id (us ! j) = None \<or> statKey (us ! j) = [])"
      using writes by blast
  qed
qed

text \<open>
  Two records without \<open>id\<close> and \<open>statKey\<close> around one that has both: the largest \<open>id\<close> is 1,
  so they get 2 and 3, and their keys are the display name and the user name.
\<close>

theorem cycle_user_store_frame_witness:
  "\<exists>us'. usersFile (aggregate 5 6 (\<lambda>s. None) (\<lambda>i. QueryFailed) [2, 0, 1] w_defaults) = Some us'
         \<and> length us' = 3
         \<and> us' ! 0 = hal\<lparr>user_id := Some 2, statKey := ''Hal'', enabled := enabled (us' ! 0)\<rparr>
         \<and> us' ! 1 = alice\<lparr>enabled := enabled (us' ! 1)\<rparr>
         \<and> us' ! 2 = ivy\<lparr>user_id := Some 3, statKey := ''ivy'', enabled := enabled (us' ! 2)\<rparr>"
proof -
  let ?us = "[hal, alice, ivy]"
  let ?w' = "aggregate 5 6 (\<lambda>s. None) (\<lambda>i. QueryFailed) [2, 0, 1] w_defaults"
  have h: "usersFile w_defaults = Some ?us" by (simp add: w_defaults_def)
  have c: "\<not> (isAggregating w_defaults \<or> \<not> usersWritable w_defaults)"
    by (simp add: w_defaults_def)
  have mx: "maxIdOf ?us = 1" by (simp add: maxIdOf_def hal_def alice_def ivy_def)
  obtain us' where us': "usersFile ?w' = Some us'" "length us' = length ?us"
    and fr: "if isAggregating w_defaults \<or> \<not> usersWritable w_defaults then us' = ?us
       else \<forall>j<length ?us.
         us' ! j
           = (?us ! j)\<lparr>user_id :=
                (if user_id (?us ! j) = None
                 then Some (maxIdOf ?us
                            + int (length (filter (\<lambda>u. user_id u = None) (take (Suc j) ?us))))
                 else user_id (?us ! j)),
              statKey :=
                (if statKey (?us ! j) \<noteq> [] then statKey (?us ! j)
                 else if displayName (?us ! j) \<noteq> [] then displayName (?us ! j)
                 else if username (?us ! j) \<noteq> [] then username (?us ! j)
                 else uuid (?us ! j)),
              enabled := enabled (us' ! j)\<rparr>"
    using cycle_user_store_frame [OF h, of 5 6 "\<lambda>s. None" "\<lambda>i. QueryFailed" "[2, 0, 1]"]
    by blast
  from fr c have all: "\<forall>j<length ?us.
         us' ! j
           = (?us ! j)\<lparr>user_id :=
                (if user_id (?us ! j) = None
                 then Some (maxIdOf ?us
                            + int (length (filter (\<lambda>u. user_id u = None) (take (Suc j) ?us))))
                 else user_id (?us ! j)),
              statKey :=
                (if statKey (?us ! j) \<noteq> [] then statKey (?us ! j)
                 else if displayName (?us ! j) \<noteq> [] then displayName (?us ! j)
                 else if username (?us ! j) \<noteq> [] then username (?us ! j)
                 else uuid (?us ! j)),
              enabled := enabled (us' ! j)\<rparr>"
    by (simp only: if_False)
  have r0: "us' ! 0 = hal\<lparr>user_id := Some 2, statKey := ''Hal'', enabled := enabled (us' ! 0)\<rparr>"
    using all [rule_format, of 0] unfolding mx by (simp add: hal_def)
  have r1: "us' ! 1 = alice\<lparr>enabled := enabled (us' ! 1)\<rparr>"
    using all [rule_format, of 1] unfolding mx by (simp add: alice_def)
  have r2: "us' ! 2 = ivy\<lparr>user_id := Some 3, statKey := ''ivy'', enabled := enabled (us' ! 2)\<rparr>"
    using all [rule_format, of 2] unfolding mx by (simp add: hal_def alice_def ivy_def)
  show ?thesis using us' r0 r1 r2 by simp
qed

text \<open>
  The claim as stated fails: for a record without \<open>statKey\<close> the cycle writes the user store
  and changes \<open>statKey\<close> although no flag changed.
\<close>

theorem store_write_without_flag_change_counterexample:
  "map enabled (case usersFile (aggregate 5 6 (\<lambda>s. None) (\<lambda>i. uplink ''carol'' 40) [0] w_carol)
                of None \<Rightarrow> [] | Some us \<Rightarrow> us) = [Flag True]
   \<and> map enabled (case usersFile w_carol of None \<Rightarrow> [] | Some us \<Rightarrow> us) = [Flag True]
   \<and> map statKey (case usersFile (aggregate 5 6 (\<lambda>s. None) (\<lambda>i. uplink ''carol'' 40) [0] w_carol)
                   of None \<Rightarrow> [] | Some us \<Rightarrow> us) = [''carol'']
   \<and> map statKey (case usersFile w_carol of None \<Rightarrow> [] | Some us \<Rightarrow> us) = [[]]
   \<and> writeLog w_carol = []
   \<and> writeLog (aggregate 5 6 (\<lambda>s. None) (\<lambda>i. uplink ''carol'' 40) [0] w_carol) = [USERS_FILE]"
  by (simp add: model_defs w_carol_def carol_def uplink_def)

subsection \<open>C10: a manual re-enable under a persisting breach\<close>

text \<open>
  C10. For a user whose accumulated usage meets a finite quota, the enable operation
  persists \<open>enabled = true\<close>, and the next cycle that runs to its end persists
  \<open>enabled = false\<close> again. The readings of that cycle are not negative, the user store is
  writable and its identifiers are distinct.
\<close>

theorem reenable_does_not_stick:
  assumes "\<not> isAggregating w" and "usersFile w = Some us" and "usersWritable w"
    and "distinct (List.map_filter user_id us)"
    and "findUserIndex n us = Some j"
    and "usageFile w = Some st" and "st (uuid (us ! j)) = Some e"
    and "quota (us ! j) = Some qv" and "qv \<noteq> - 1"
    and "of_int (accumBytes e) / 1073741824 \<ge> qv"
    and "\<forall>i<length us. 0 \<le> queryRawBytes (statKeyOf (us ! i)) (q i)"
    and "valid_sched sched (length us)"
  shows "fst (enableUser n w) = Ok200
       \<and> (\<exists>us1. usersFile (snd (enableUser n w)) = Some us1 \<and> length us1 = length us
             \<and> enabled (us1 ! j) = Flag True)
       \<and> (\<exists>us2. usersFile (aggregate now stamp pd q sched (snd (enableUser n w))) = Some us2
             \<and> length us2 = length us \<and> enabled (us2 ! j) = Flag False)"
proof -
  have j: "j < length us" using findUserIndex_Some [OF assms(5)] by simp
  let ?a = "accumulateUsage us w"
  let ?us1 = "?a[j := (?a ! j)\<lparr>enabled := Flag True\<rparr>]"
  let ?w1 = "w\<lparr>usersFile := Some ?us1, writeLog := USERS_FILE # writeLog w\<rparr>"
  let ?enr = "snapshotOf now pd q sched ?us1 ?w1"
  let ?u2 = "users (accState q sched (loaded ?us1) ?w1) ! j"
  have en: "enableUser n w = (Ok200, ?w1)" by (rule enableUser_ok [OF assms(2,3,5)])
  have len1: "length ?us1 = length us" by simp
  have ids: "map user_id ?us1 = map user_id us"
    by (rule nth_equalityI) (simp_all add: enabled_list_fields del: nth_list_update)
  have d1: "distinct (List.map_filter user_id ?us1)"
    using assms(4) map_filter_cong_ids [OF ids] by simp
  have f1: "\<not> isAggregating ?w1" "usersFile ?w1 = Some ?us1" "usersWritable ?w1"
    using assms(1,3) by simp_all
  have j1: "j < length ?us1" using j by simp
  have file2: "usersFile (aggregate now stamp pd q sched ?w1) = Some (flagsOf ?enr (loaded ?us1))"
    by (rule cycle_enabled_core(1) [OF f1 d1 j1])
  have flag2: "enabled (flagsOf ?enr (loaded ?us1) ! j)
           = Flag (truthy (enabled (?us1 ! j)) \<and> \<not> breached now pd ?u2)"
    by (rule cycle_enabled_core(4) [OF f1 d1 j1])
  have raws: "\<forall>i<length (loaded ?us1). 0 \<le> rawOf q (loaded ?us1) i"
  proof (intro allI impI)
    fix i assume "i < length (loaded ?us1)"
    then have i: "i < length us" by simp
    then have "rawOf q (loaded ?us1) i = queryRawBytes (statKeyOf (us ! i)) (q i)"
      by (simp add: loaded_rawOf) (simp add: rawOf_def enabled_list_fields del: nth_list_update)
    then show "0 \<le> rawOf q (loaded ?us1) i" using assms(11) i by simp
  qed
  have key: "uuid (loaded ?us1 ! j) = uuid (us ! j)"
    using j by (simp add: loaded_nth_fields accumulateUsage_fields)
  have rd: "readUsageOrEmpty ?w1 (uuid (loaded ?us1 ! j)) = Some e"
    using assms(6,7) by (simp add: key readUsageOrEmpty_def readUsage_def)
  have mem: "j \<in> set sched" using valid_sched_mem [OF assms(12) j] .
  obtain a where a: "usageAccumBytes ?u2 = Some a" "accumBytes e \<le> a"
    using accState_user_mono [OF raws mem _ rd] j by auto
  have q2: "quota ?u2 = Some qv"
    using cycle_user_fields(4) [OF j1, of q sched ?w1] assms(8) j
    by (simp add: accumulateUsage_fields)
  have "(of_int (accumBytes e) :: rat) / 1073741824 \<le> of_int a / 1073741824"
    using a(2) by (simp add: divide_right_mono)
  then have "qv \<le> usagePreciseGB ?u2"
    using assms(10) a(1) by (simp add: usagePreciseGB_def)
  then have br: "breached now pd ?u2"
    using q2 assms(9) by (simp add: breached_def quotaGB_def)
  have off: "enabled (flagsOf ?enr (loaded ?us1) ! j) = Flag False"
    using flag2 br by simp
  have on: "enabled (?us1 ! j) = Flag True" using j by simp
  show ?thesis
    unfolding en using file2 off on len1 by simp
qed

text \<open>
  A disabled user at exactly 1 GB of a 1 GB quota is enabled by hand and disabled by the next cycle.
\<close>

theorem reenable_does_not_stick_witness:
  "fst (enableUser ''alice'' w_over) = Ok200
   \<and> (\<exists>us1. usersFile (snd (enableUser ''alice'' w_over)) = Some us1 \<and> length us1 = 1
         \<and> enabled (us1 ! 0) = Flag True)
   \<and> (\<exists>us2. usersFile (aggregate 5 6 (\<lambda>s. None) (\<lambda>i. uplink ''alice'' 1524) [0]
                          (snd (enableUser ''alice'' w_over))) = Some us2
         \<and> length us2 = 1 \<and> enabled (us2 ! 0) = Flag False)"
proof -
  let ?us = "[alice\<lparr>enabled := Flag False\<rparr>]"
  let ?st = "[''u-1'' \<mapsto> \<lparr>accumBytes = 1073741824, lastRawBytes = 700\<rparr>]"
  have h1: "\<not> isAggregating w_over" and h2: "usersFile w_over = Some ?us"
    and h3: "usersWritable w_over" and h6: "usageFile w_over = Some ?st"
    by (simp_all add: w_over_def)
  have h4: "distinct (List.map_filter user_id ?us)" by (simp add: map_filter_simps alice_def)
  have h5: "findUserIndex ''alice'' ?us = Some 0" by (simp add: alice_def)
  have h7: "?st (uuid (?us ! 0)) = Some \<lparr>accumBytes = 1073741824, lastRawBytes = 700\<rparr>"
    by (simp add: alice_def)
  have h8: "quota (?us ! 0) = Some 1" by (simp add: alice_def)
  have h9: "(1::rat) \<noteq> - 1" by simp
  have h10: "(1::rat) \<le> of_int (accumBytes \<lparr>accumBytes = 1073741824, lastRawBytes = 700\<rparr>) / 1073741824"
    by simp
  have h11: "\<forall>i<length ?us. 0 \<le> queryRawBytes (statKeyOf (?us ! i)) (uplink ''alice'' 1524)"
    by (simp add: alice_def query_defs)
  have h12: "valid_sched [0] (length ?us)" by (simp add: valid_sched_def)
  show ?thesis
    using reenable_does_not_stick
            [where q = "\<lambda>i. uplink ''alice'' 1524" and now = 5 and stamp = 6 and pd = "\<lambda>s. None",
             OF h1 h2 h3 h4 h5 h6 h7 h8 h9 h10 h11 h12]
    by simp
qed

end
